theory Spec2Isabelle
  imports Complex_Main
begin

section \<open>The planning task\<close>

text \<open>
  A fact is a pair (variable id, value), the source's \<^verbatim>\<open>FactPair\<close>. An operator has a name,
  preconditions, a list of effects (each a fact under a possibly empty list of conditions)
  and a cost; its id is its position in the task's operator list. Axioms are kept in a list
  of their own and have the same shape. A state is the list of the variables' values.
\<close>

type_synonym FactPair = "nat \<times> nat"

type_synonym State = "nat list"

record EffectProxy =
  get_conditions :: "FactPair list"
  get_fact :: FactPair

record OperatorProxy =
  get_name :: string
  get_preconditions :: "FactPair list"
  get_effects :: "EffectProxy list"
  get_cost :: nat

record TaskProxy =
  get_variables :: "nat list"
  get_operators :: "OperatorProxy list"
  get_axioms :: "OperatorProxy list"
  get_initial_state :: State
  get_goals :: "FactPair list"

record Landmark =
  facts :: "FactPair list"
  disjunctive :: bool
  conjunctive :: bool
  is_true_in_goal :: bool

text \<open>
  What stops the program: a failed \<^verbatim>\<open>assert\<close>, an index outside its container, the exit
  of \<^verbatim>\<open>verify_no_conditional_effects\<close>, and the conversion to \<^verbatim>\<open>int\<close> of a \<^verbatim>\<open>double\<close> whose
  value no \<^verbatim>\<open>int\<close> holds.
\<close>

datatype error = AssertionFailed | OutOfRange | Unsupported | Overflow

section \<open>Landmark relaxation analysis\<close>

text \<open>\<^verbatim>\<open>numeric_limits<int>::max()\<close>, the level of a fact that was never reached.\<close>

definition numeric_limits_int_max :: int where
  "numeric_limits_int_max = 2147483647"

text \<open>\<^verbatim>\<open>std::vector::resize(n, d)\<close>: cut to n entries or pad with d.\<close>

definition resize :: "nat \<Rightarrow> 'a \<Rightarrow> 'a list \<Rightarrow> 'a list" where
  "resize n d xs = take n xs @ replicate (n - length xs) d"

text \<open>
  The start of both tests: one row per variable, every row resized to the variable's domain
  size with \<^verbatim>\<open>numeric_limits<int>::max()\<close> in the new places.
\<close>

definition init_lvl_var :: "TaskProxy \<Rightarrow> int list list \<Rightarrow> int list list" where
  "init_lvl_var task_proxy lvl_var =
     map (\<lambda>(domain_size, row). resize domain_size numeric_limits_int_max row)
       (zip (get_variables task_proxy)
            (resize (length (get_variables task_proxy)) [] lvl_var))"

text \<open>
  The loop \<^verbatim>\<open>for (OperatorProxy op : operators) if (p(op)) exclude_op_ids.insert(op.get_id())\<close>,
  over the operators with their ids.
\<close>

fun collect_op_ids :: "(OperatorProxy \<Rightarrow> bool) \<Rightarrow> nat \<Rightarrow> OperatorProxy list \<Rightarrow> int set \<Rightarrow> int set" where
  "collect_op_ids p i [] exclude_op_ids = exclude_op_ids"
| "collect_op_ids p i (op # ops) exclude_op_ids =
     collect_op_ids p (Suc i) ops
       (if p op then insert (int i) exclude_op_ids else exclude_op_ids)"

text \<open>
  The loop over the goals that closes both tests: is some goal fact still at
  \<^verbatim>\<open>numeric_limits<int>::max()\<close>?
\<close>

definition some_goal_at_max :: "TaskProxy \<Rightarrow> int list list \<Rightarrow> bool" where
  "some_goal_at_max task_proxy lvl_var =
     list_ex (\<lambda>goal. lvl_var ! fst goal ! snd goal = numeric_limits_int_max)
       (get_goals task_proxy)"

text \<open>
  \<^verbatim>\<open>achieves_non_conditional\<close>: two nested loops that return true at the first effect whose
  fact is a fact of the landmark and whose condition list is empty.
\<close>

definition achieves_non_conditional :: "OperatorProxy \<Rightarrow> Landmark \<Rightarrow> bool" where
  "achieves_non_conditional o' landmark =
     list_ex (\<lambda>effect.
       list_ex (\<lambda>lm_fact. get_fact effect = lm_fact \<and> get_conditions effect = [])
         (facts landmark))
       (get_effects o')"

text \<open>
  Modelled from the spec: \<^verbatim>\<open>LandmarkFactory::is_landmark_precondition\<close> is declared in a
  file that is not among the sources. The spec's words: an action that has any of the
  landmark's facts as a precondition.
\<close>

definition is_landmark_precondition :: "OperatorProxy \<Rightarrow> Landmark \<Rightarrow> bool" where
  "is_landmark_precondition op landmark =
     list_ex (\<lambda>pre. list_ex (\<lambda>lm_fact. pre = lm_fact) (facts landmark))
       (get_preconditions op)"

text \<open>
  The exploration object is an argument of both tests, as in the source: a function from the
  level table, the excluded facts and the excluded operator ids to the level table it leaves
  behind (\<^verbatim>\<open>compute_reachability_with_excludes\<close>).
\<close>

type_synonym Exploration = "int list list \<Rightarrow> FactPair list \<Rightarrow> int set \<Rightarrow> int list list"

text \<open>\<^verbatim>\<open>relaxed_task_solvable\<close> (the four-argument overload): the result and the level table.\<close>

definition relaxed_task_solvable_exclude_op_ids :: "TaskProxy \<Rightarrow> Landmark \<Rightarrow> int set" where
  "relaxed_task_solvable_exclude_op_ids task_proxy exclude =
     collect_op_ids (\<lambda>op. achieves_non_conditional op exclude) 0 (get_operators task_proxy) {}"

definition relaxed_task_solvable ::
  "TaskProxy \<Rightarrow> Exploration \<Rightarrow> int list list \<Rightarrow> Landmark \<Rightarrow> bool \<times> int list list" where
  "relaxed_task_solvable task_proxy exploration lvl_var exclude =
     (let lvl_var1 = init_lvl_var task_proxy lvl_var;
          exclude_op_ids = relaxed_task_solvable_exclude_op_ids task_proxy exclude;
          exclude_props = [] @ facts exclude;
          lvl_var2 = exploration lvl_var1 exclude_props exclude_op_ids
      in (\<not> some_goal_at_max task_proxy lvl_var2, lvl_var2))"

text \<open>
  \<^verbatim>\<open>is_causal_landmark\<close>. The vector \<^verbatim>\<open>exclude_props\<close> is declared and handed to the exploration
  as it is, empty; only the operator ids are collected.
\<close>

definition is_causal_landmark_exclude_op_ids :: "TaskProxy \<Rightarrow> Landmark \<Rightarrow> int set" where
  "is_causal_landmark_exclude_op_ids task_proxy landmark =
     collect_op_ids (\<lambda>op. is_landmark_precondition op landmark) 0 (get_operators task_proxy) {}"

definition is_causal_landmark :: "TaskProxy \<Rightarrow> Exploration \<Rightarrow> Landmark \<Rightarrow> error + bool" where
  "is_causal_landmark task_proxy exploration landmark =
     (if conjunctive landmark then Inl AssertionFailed
      else if is_true_in_goal landmark then Inr True
      else
        let lvl_var = init_lvl_var task_proxy [];
            exclude_op_ids = is_causal_landmark_exclude_op_ids task_proxy landmark;
            exclude_props = [];
            lvl_var2 = exploration lvl_var exclude_props exclude_op_ids
        in Inr (some_goal_at_max task_proxy lvl_var2))"

section \<open>The relaxed exploration engine\<close>

text \<open>
  Modelled from the spec: the exploration engine (\<^verbatim>\<open>Exploration\<close>, and the base classes of
  the FF heuristic with \<^verbatim>\<open>compute_add_and_ff\<close>) and the compilation into unary operators
  are in files that are not among the sources. What follows is the engine of the spec's
  sections 3 and 4.1, in the names the heuristic's source uses for what it reads
  (\<^verbatim>\<open>cost\<close>, \<^verbatim>\<open>reached_by\<close>, \<^verbatim>\<open>marked\<close>, \<^verbatim>\<open>operator_no\<close>, \<^verbatim>\<open>NO_OP\<close>).

  A proposition (one per fact) has a cost, \<open>None\<close> for infinity, the id of the unary
  operator that first reached it (\<^verbatim>\<open>NO_OP\<close> when none did) and the flag of the backward
  chaining. A unary operator has one effect fact, a list of precondition facts, a base cost
  and the number of the operator it comes from, -1 for an axiom.
\<close>

record Proposition =
  cost :: "nat option"
  reached_by :: int
  marked :: bool

record UnaryOperator =
  operator_no :: int
  precondition :: "FactPair list"
  effect :: FactPair
  base_cost :: nat

definition NO_OP :: int where
  "NO_OP = - 1"

text \<open>
  Modelled from the spec: every (operator, effect) pair and every axiom becomes one unary
  operator, whose preconditions are the operator's preconditions and the effect's
  conditions, as a set; axioms get cost 0 and the number -1.
\<close>

definition build_unary_operators_of :: "int \<Rightarrow> nat \<Rightarrow> OperatorProxy \<Rightarrow> UnaryOperator list" where
  "build_unary_operators_of op_no c op =
     map (\<lambda>e. \<lparr>operator_no = op_no,
               precondition = remdups (get_preconditions op @ get_conditions e),
               effect = get_fact e,
               base_cost = c\<rparr>)
       (get_effects op)"

definition build_unary_operators :: "TaskProxy \<Rightarrow> UnaryOperator list" where
  "build_unary_operators task =
     concat (map (\<lambda>(i, op). build_unary_operators_of (int i) (get_cost op) op)
                 (enumerate 0 (get_operators task)))
     @ concat (map (build_unary_operators_of (- 1) 0) (get_axioms task))"

text \<open>
  Modelled from the spec: the state of one run. Each unary operator has a counter of its
  preconditions not yet satisfied and the accumulated cost of those satisfied; the queue
  holds the facts reached and not yet processed, with their costs.
\<close>

record ExplorationState =
  nodes :: "FactPair \<Rightarrow> Proposition"
  counters :: "(nat \<times> nat) list"
  queue :: "(nat \<times> FactPair) list"

definition state_facts :: "State \<Rightarrow> FactPair list" where
  "state_facts state = enumerate 0 state"

definition reach :: "FactPair \<Rightarrow> nat \<Rightarrow> int \<Rightarrow> ExplorationState \<Rightarrow> ExplorationState" where
  "reach f c by s =
     s\<lparr>nodes := (nodes s)(f := (nodes s f)\<lparr>cost := Some c, reached_by := by\<rparr>),
       queue := queue s @ [(c, f)]\<rparr>"

text \<open>
  Modelled from the spec: a unary operator is disabled when the operator it comes from is
  excluded or its effect is an excluded fact. A unary operator whose counter is at zero
  fires: if it is enabled and its effect has not been reached yet, the effect gets the
  accumulated cost plus the base cost, this operator as its first achiever, and a place in
  the queue.
\<close>

definition rule_enabled :: "FactPair list \<Rightarrow> int set \<Rightarrow> UnaryOperator \<Rightarrow> bool" where
  "rule_enabled excluded_props excluded_op_ids rule \<longleftrightarrow>
     operator_no rule \<notin> excluded_op_ids \<and> effect rule \<notin> set excluded_props"

definition fire ::
  "FactPair list \<Rightarrow> int set \<Rightarrow> UnaryOperator list \<Rightarrow> nat \<Rightarrow> ExplorationState \<Rightarrow> ExplorationState" where
  "fire excluded_props excluded_op_ids rules i s =
     (let rule = rules ! i; head = effect rule in
      if rule_enabled excluded_props excluded_op_ids rule \<and> cost (nodes s head) = None
      then reach head (snd (counters s ! i) + base_cost rule) (int i) s
      else s)"

text \<open>
  Modelled from the spec: a fact f taken from the queue at cost c is handed to every unary
  operator that has it as a precondition: the counter goes down by one, c is added to the
  accumulated cost, and the operator fires when the counter has reached zero.
\<close>

definition satisfy ::
  "FactPair list \<Rightarrow> int set \<Rightarrow> UnaryOperator list \<Rightarrow> FactPair \<Rightarrow> nat \<Rightarrow> nat \<Rightarrow>
   ExplorationState \<Rightarrow> ExplorationState" where
  "satisfy excluded_props excluded_op_ids rules f c i s =
     (if f \<in> set (precondition (rules ! i)) then
        let unsatisfied = fst (counters s ! i) - 1;
            s1 = s\<lparr>counters := (counters s)[i := (unsatisfied, snd (counters s ! i) + c)]\<rparr>
        in if unsatisfied = 0 then fire excluded_props excluded_op_ids rules i s1 else s1
      else s)"

text \<open>
  Modelled from the spec: at the start every proposition is unreached and unmarked, every
  fact of the seed state that is not excluded gets cost 0 and no achiever, every counter is
  the number of preconditions, and the unary operators without preconditions (whose counter
  is at zero from the start) fire.
\<close>

definition seed :: "FactPair list \<Rightarrow> FactPair \<Rightarrow> ExplorationState \<Rightarrow> ExplorationState" where
  "seed excluded_props f s = (if f \<in> set excluded_props then s else reach f 0 NO_OP s)"

definition setup_exploration_queue ::
  "State \<Rightarrow> FactPair list \<Rightarrow> int set \<Rightarrow> UnaryOperator list \<Rightarrow> ExplorationState" where
  "setup_exploration_queue state excluded_props excluded_op_ids rules =
     (let s0 = \<lparr>nodes = (\<lambda>f. \<lparr>cost = None, reached_by = NO_OP, marked = False\<rparr>),
                counters = map (\<lambda>rule. (length (precondition rule), 0)) rules,
                queue = []\<rparr>;
          s1 = fold (seed excluded_props) (state_facts state) s0
      in fold (\<lambda>i s. if fst (counters s ! i) = 0
                      then fire excluded_props excluded_op_ids rules i s else s)
           [0..<length rules] s1)"

text \<open>
  The main loop takes a fact of least cost from the queue until the queue is empty. It ends
  because a fact enters the queue only when it is reached for the first time, as the effect
  of a unary operator.
\<close>

definition unreached_heads :: "UnaryOperator list \<Rightarrow> ExplorationState \<Rightarrow> nat set" where
  "unreached_heads rules s = {i. i < length rules \<and> cost (nodes s (effect (rules ! i))) = None}"

definition work_left :: "UnaryOperator list \<Rightarrow> ExplorationState \<Rightarrow> nat" where
  "work_left rules s = card (unreached_heads rules s) + length (queue s)"

lemma finite_unreached_heads [simp]: "finite (unreached_heads rules s)"
  by (simp add: unreached_heads_def)

lemma work_left_fire:
  assumes "i < length rules"
  shows "work_left rules (fire xp xo rules i s) \<le> work_left rules s"
proof (cases "rule_enabled xp xo (rules ! i) \<and> cost (nodes s (effect (rules ! i))) = None")
  case True
  let ?s' = "fire xp xo rules i s"
  have sub: "unreached_heads rules ?s' \<subseteq> unreached_heads rules s - {i}"
    using True by (auto simp: unreached_heads_def fire_def reach_def Let_def split: if_splits)
  have "i \<in> unreached_heads rules s"
    using True assms by (simp add: unreached_heads_def)
  then have "card (unreached_heads rules s - {i}) < card (unreached_heads rules s)"
    by (intro card_Diff1_less) simp_all
  moreover have "card (unreached_heads rules ?s') \<le> card (unreached_heads rules s - {i})"
    using sub by (simp add: card_mono)
  moreover have "length (queue ?s') = Suc (length (queue s))"
    using True by (simp add: fire_def reach_def Let_def)
  ultimately show ?thesis by (simp add: work_left_def)
next
  case False
  then have "fire xp xo rules i s = s" by (auto simp: fire_def Let_def)
  then show ?thesis by simp
qed

lemma work_left_counters [simp]:
  "work_left rules (s\<lparr>counters := cs\<rparr>) = work_left rules s"
  by (simp add: work_left_def unreached_heads_def)

lemma work_left_satisfy:
  "i < length rules \<Longrightarrow> work_left rules (satisfy xp xo rules f c i s) \<le> work_left rules s"
proof -
  assume i: "i < length rules"
  have "work_left rules (fire xp xo rules i (s\<lparr>counters := cs\<rparr>)) \<le> work_left rules s" for cs
    using work_left_fire [OF i, of xp xo "s\<lparr>counters := cs\<rparr>"] by simp
  then show ?thesis
    by (simp add: satisfy_def Let_def)
qed

lemma work_left_fold_satisfy:
  "set is \<subseteq> {..<length rules} \<Longrightarrow>
   work_left rules (fold (satisfy xp xo rules f c) is s) \<le> work_left rules s"
proof (induction "is" arbitrary: s)
  case Nil
  then show ?case by simp
next
  case (Cons i "is")
  have "work_left rules (fold (satisfy xp xo rules f c) is (satisfy xp xo rules f c i s))
        \<le> work_left rules (satisfy xp xo rules f c i s)"
    using Cons by simp
  also have "\<dots> \<le> work_left rules s"
    using Cons.prems by (simp add: work_left_satisfy)
  finally show ?case by simp
qed

function relaxed_exploration ::
  "FactPair list \<Rightarrow> int set \<Rightarrow> UnaryOperator list \<Rightarrow> ExplorationState \<Rightarrow> ExplorationState" where
  "relaxed_exploration excluded_props excluded_op_ids rules s =
     (if queue s = [] then s
      else
        let top = arg_min_list fst (queue s);
            s1 = s\<lparr>queue := remove1 top (queue s)\<rparr>
        in relaxed_exploration excluded_props excluded_op_ids rules
             (fold (satisfy excluded_props excluded_op_ids rules (snd top) (fst top))
                [0..<length rules] s1))"
  by pat_completeness auto
termination
proof (relation "measure (\<lambda>(xp, xo, rules, s). work_left rules s)")
  show "wf (measure (\<lambda>(xp, xo, rules, s). work_left rules s))" by simp
next
  fix xp :: "FactPair list" and xo :: "int set" and rules :: "UnaryOperator list"
    and s :: ExplorationState and top s1
  assume ne: "queue s \<noteq> []" and top: "top = arg_min_list fst (queue s)"
    and s1: "s1 = s\<lparr>queue := remove1 top (queue s)\<rparr>"
  have "top \<in> set (queue s)" using ne top by (simp add: arg_min_list_in)
  then have "length (queue s1) < length (queue s)"
    using s1 by (simp add: length_remove1) (use ne in \<open>cases "queue s"; simp\<close>)
  then have "work_left rules s1 < work_left rules s"
    using s1 by (simp add: work_left_def unreached_heads_def)
  moreover have "work_left rules
      (fold (satisfy xp xo rules (snd top) (fst top)) [0..<length rules] s1) \<le> work_left rules s1"
    by (rule work_left_fold_satisfy) auto
  ultimately show "((xp, xo, rules,
      fold (satisfy xp xo rules (snd top) (fst top)) [0..<length rules] s1),
      xp, xo, rules, s) \<in> measure (\<lambda>(xp, xo, rules, s). work_left rules s)"
    by simp
qed

definition explore ::
  "State \<Rightarrow> FactPair list \<Rightarrow> int set \<Rightarrow> UnaryOperator list \<Rightarrow> FactPair \<Rightarrow> Proposition" where
  "explore state excluded_props excluded_op_ids rules =
     nodes (relaxed_exploration excluded_props excluded_op_ids rules
              (setup_exploration_queue state excluded_props excluded_op_ids rules))"

text \<open>
  Modelled from the spec: \<^verbatim>\<open>Exploration::compute_reachability_with_excludes\<close> explores from
  the task's initial state and writes the cost of every reached fact into the level table;
  the entries of the other facts stay as they were.
\<close>

definition compute_reachability_with_excludes :: "TaskProxy \<Rightarrow> Exploration" where
  "compute_reachability_with_excludes task lvl_var excluded_props excluded_op_ids =
     (let props = explore (get_initial_state task) excluded_props excluded_op_ids
                    (build_unary_operators task)
      in map (\<lambda>(var, row).
               map (\<lambda>(val, old). case cost (props (var, val)) of None \<Rightarrow> old | Some c \<Rightarrow> int c)
                 (enumerate 0 row))
           (enumerate 0 lvl_var))"

section \<open>The landmark graph\<close>

text \<open>
  Modelled from the spec: the landmark graph (\<^verbatim>\<open>LandmarkGraph::remove_node_if\<close>) and
  \<^verbatim>\<open>task_properties::verify_no_conditional_effects\<close> are in files that are not among the
  sources. A graph is a list of nodes, each a landmark with an id, and a list of ordering
  edges between ids; removing nodes removes every edge that touches one of them. The
  condition is evaluated node by node; when an evaluation stops the program, the removal
  does not happen.
\<close>

record LandmarkNode =
  get_id :: nat
  get_landmark :: Landmark

record LandmarkGraph =
  get_nodes :: "LandmarkNode list"
  get_edges :: "(nat \<times> nat) list"

definition has_conditional_effects :: "TaskProxy \<Rightarrow> bool" where
  "has_conditional_effects task_proxy =
     list_ex (\<lambda>op. list_ex (\<lambda>effect. get_conditions effect \<noteq> []) (get_effects op))
       (get_operators task_proxy)"

fun remove_node_conditions ::
  "(LandmarkNode \<Rightarrow> error + bool) \<Rightarrow> LandmarkNode list \<Rightarrow> error + bool list" where
  "remove_node_conditions remove_node_condition [] = Inr []"
| "remove_node_conditions remove_node_condition (node # rest) =
     (case remove_node_condition node of
        Inl e \<Rightarrow> Inl e
      | Inr b \<Rightarrow>
          (case remove_node_conditions remove_node_condition rest of
             Inl e \<Rightarrow> Inl e
           | Inr bs \<Rightarrow> Inr (b # bs)))"

definition remove_node_if ::
  "(LandmarkNode \<Rightarrow> error + bool) \<Rightarrow> LandmarkGraph \<Rightarrow> error + LandmarkGraph" where
  "remove_node_if remove_node_condition lm_graph =
     (case remove_node_conditions remove_node_condition (get_nodes lm_graph) of
        Inl e \<Rightarrow> Inl e
      | Inr bs \<Rightarrow>
          let removed = map (get_id \<circ> fst) (filter snd (zip (get_nodes lm_graph) bs));
              kept = map fst (filter (\<lambda>(node, b). \<not> b) (zip (get_nodes lm_graph) bs))
          in Inr \<lparr>get_nodes = kept,
                  get_edges = filter (\<lambda>(parent, child). parent \<notin> set removed \<and> child \<notin> set removed)
                                (get_edges lm_graph)\<rparr>)"

text \<open>
  The condition that \<^verbatim>\<open>discard_noncausal_landmarks\<close> hands to \<^verbatim>\<open>remove_node_if\<close>: the
  negated causal test of the node's landmark.
\<close>

definition not_causal :: "TaskProxy \<Rightarrow> Exploration \<Rightarrow> LandmarkNode \<Rightarrow> error + bool" where
  "not_causal task_proxy exploration node =
     (case is_causal_landmark task_proxy exploration (get_landmark node) of
        Inl e \<Rightarrow> Inl e | Inr causal \<Rightarrow> Inr (\<not> causal))"

text \<open>
  \<^verbatim>\<open>discard_noncausal_landmarks\<close>: the graph without the landmarks that fail the causal test,
  and the number it logs as discarded.
\<close>

definition discard_noncausal_landmarks :: 
  "TaskProxy \<Rightarrow> Exploration \<Rightarrow> LandmarkGraph \<Rightarrow> error + LandmarkGraph \<times> int" where
  "discard_noncausal_landmarks task_proxy exploration lm_graph =
     (if has_conditional_effects task_proxy then Inl Unsupported
      else
        let num_all_landmarks = int (length (get_nodes lm_graph)) in
        case remove_node_if (not_causal task_proxy exploration) lm_graph of
          Inl e \<Rightarrow> Inl e
        | Inr lm_graph' \<Rightarrow>
            let num_causal_landmarks = int (length (get_nodes lm_graph'))
            in Inr (lm_graph', num_all_landmarks - num_causal_landmarks))"

section \<open>The FF heuristic\<close>

text \<open>
  \<^verbatim>\<open>DEAD_END\<close> is the value the heuristic returns for a state it cannot solve, an integer
  that no estimate is meant to take. It is declared in a file that is not among the sources
  and is taken as -1, its value in the planner this repository extends.
\<close>

definition DEAD_END :: int where
  "DEAD_END = - 1"

text \<open>
  The numbers of \<^verbatim>\<open>compute_heuristic\<close>. An \<^verbatim>\<open>int\<close> has 32 bits, and a sum of \<^verbatim>\<open>int\<close>s that
  leaves the range from -2147483648 to 2147483647 comes back into it by a multiple of
  4294967296, as two's complement addition does.
\<close>

definition int_wrap :: "int \<Rightarrow> int" where
  "int_wrap x = (x + 2147483648) mod 4294967296 - 2147483648"

text \<open>
  A \<^verbatim>\<open>double\<close> is an IEEE 754 number of 64 bits: not a number, plus or minus infinity, or a
  finite number, which is a whole number \<open>m\<close> of at most 53 bits times a power of two with an
  exponent \<open>e\<close> of at least -1074, and smaller in size than 2 to the 1024. \<open>Finite m e\<close> is the
  number \<open>m\<close> times 2 to the \<open>e\<close>; a zero is kept without its sign, which no operation below
  reads.
\<close>

datatype double = Finite int int | PlusInfinity | MinusInfinity | NaN

text \<open>The number of binary digits of a whole number that is not negative.\<close>

function bit_length :: "int \<Rightarrow> nat" where
  "bit_length n = (if n \<le> 0 then 0 else Suc (bit_length (n div 2)))"
  by pat_completeness auto

termination bit_length
  by (relation "measure nat") auto

declare bit_length.simps [simp del]

text \<open>The values of the type that are doubles.\<close>

fun is_double :: "double \<Rightarrow> bool" where
  "is_double (Finite m e) \<longleftrightarrow>
     - 1074 \<le> e \<and> bit_length \<bar>m\<bar> \<le> 53 \<and> int (bit_length \<bar>m\<bar>) + e \<le> 1024"
| "is_double x \<longleftrightarrow> True"

text \<open>
  The \<^verbatim>\<open>double\<close> that the number \<open>m\<close> times 2 to the \<open>e\<close> is rounded to, for \<open>e\<close> of at least
  -1074: if \<open>m\<close> has more than 53 bits, the bits below the first 53 are dropped and the rest
  goes to the nearer neighbour, to the even one of two equally near (a carry out of the 53
  bits moves the exponent up by one); a result that has left the range of the finite
  numbers is an infinity.
\<close>

definition round_to_double :: "int \<Rightarrow> int \<Rightarrow> double" where
  "round_to_double m e =
     (let a = \<bar>m\<bar>;
          k = bit_length a - 53;
          q = a div 2 ^ k;
          r = a mod 2 ^ k;
          up = (0 < k \<and> (2 ^ k < 2 * r \<or> (2 * r = 2 ^ k \<and> odd q)));
          carry = (up \<and> q + 1 = 2 ^ 53);
          a' = (if carry then 2 ^ 52 else if up then q + 1 else q);
          e' = (if carry then e + int k + 1 else e + int k)
      in if 1024 < int (bit_length a') + e'
         then (if m < 0 then MinusInfinity else PlusInfinity)
         else Finite (if m < 0 then - a' else a') e')"

text \<open>
  The sum of two \<^verbatim>\<open>double\<close>s: the exact sum of two finite numbers, rounded; not a number
  if either is none or if the two are the two infinities.
\<close>

fun dadd :: "double \<Rightarrow> double \<Rightarrow> double" where
  "dadd (Finite m1 e1) (Finite m2 e2) =
     (let e = min e1 e2
      in round_to_double (m1 * 2 ^ nat (e1 - e) + m2 * 2 ^ nat (e2 - e)) e)"
| "dadd NaN y = NaN"
| "dadd x NaN = NaN"
| "dadd PlusInfinity MinusInfinity = NaN"
| "dadd MinusInfinity PlusInfinity = NaN"
| "dadd PlusInfinity y = PlusInfinity"
| "dadd MinusInfinity y = MinusInfinity"
| "dadd (Finite m e) y = y"

text \<open>\<^verbatim>\<open>ceil\<close>: the least whole number that is not smaller, itself a \<^verbatim>\<open>double\<close>.\<close>

fun dceil :: "double \<Rightarrow> double" where
  "dceil (Finite m e) = (if 0 \<le> e then Finite m e else Finite (- ((- m) div 2 ^ nat (- e))) 0)"
| "dceil x = x"

text \<open>
  The conversion of a \<^verbatim>\<open>double\<close> to the \<^verbatim>\<open>int\<close> that \<^verbatim>\<open>compute_heuristic\<close> returns: the
  number without its fraction if that is in the range of \<^verbatim>\<open>int\<close>. For every other \<^verbatim>\<open>double\<close>
  the source's behaviour is undefined, and the call stops here.
\<close>

fun double_to_int :: "double \<Rightarrow> error + int" where
  "double_to_int (Finite m e) =
     (let t = (if 0 \<le> e then m * 2 ^ nat e else sgn m * (\<bar>m\<bar> div 2 ^ nat (- e)))
      in if - 2147483648 \<le> t \<and> t \<le> 2147483647 then Inr t else Inl Overflow)"
| "double_to_int x = Inl Overflow"

text \<open>The real number that \<open>m\<close> times 2 to the \<open>e\<close> is.\<close>

definition dyadic :: "int \<Rightarrow> int \<Rightarrow> real" where
  "dyadic m e = (if 0 \<le> e then of_int m * 2 ^ nat e else of_int m / 2 ^ nat (- e))"

text \<open>
  The heuristic object: the task, the unary operators and goal propositions it was built
  with, the proposition table of the last exploration, the relaxed-plan membership array,
  the preferred operators handed out, and the learned weights. The table of the weights is
  declared in a header that is not among the sources; its values are taken as \<^verbatim>\<open>double\<close>s,
  the type of the weights the constructor stores in it and of the sum they are added to.
\<close>

record FFHeuristic =
  ff_task :: TaskProxy
  unary_operators :: "UnaryOperator list"
  goal_propositions :: "FactPair list"
  propositions :: "FactPair \<Rightarrow> Proposition"
  relaxed_plan :: "bool list"
  preferred_operators :: "nat list"
  use_learned_weights :: bool
  op_weights :: "string \<Rightarrow> double option"

text \<open>
  The constructor: the membership array has one false entry per operator; in learned-weight
  mode the two lists must have the same length (an \<^verbatim>\<open>assert\<close>) and the weights are stored
  under their names, a later entry replacing an earlier one of the same name.
\<close>

fun fill_op_weights ::
  "string list \<Rightarrow> double list \<Rightarrow> (string \<Rightarrow> double option)
     \<Rightarrow> error + (string \<Rightarrow> double option)" where
  "fill_op_weights [] weights table = Inr table"
| "fill_op_weights (name # names) [] table = Inl OutOfRange"
| "fill_op_weights (name # names) (weight # weights) table =
     fill_op_weights names weights (table(name \<mapsto> weight))"

definition FFHeuristic_init ::
  "TaskProxy \<Rightarrow> bool \<Rightarrow> string list \<Rightarrow> double list \<Rightarrow> error + FFHeuristic" where
  "FFHeuristic_init task learned operator_names operator_weights =
     (let h = \<lparr>ff_task = task,
                unary_operators = build_unary_operators task,
                goal_propositions = get_goals task,
                propositions = (\<lambda>f. \<lparr>cost = None, reached_by = NO_OP, marked = False\<rparr>),
                relaxed_plan = replicate (length (get_operators task)) False,
                preferred_operators = [],
                use_learned_weights = learned,
                op_weights = Map.empty\<rparr>
      in if learned then
           if length operator_names \<noteq> length operator_weights then Inl AssertionFailed
           else (case fill_op_weights operator_names operator_weights Map.empty of
                   Inl e \<Rightarrow> Inl e
                 | Inr table \<Rightarrow> Inr (h\<lparr>op_weights := table\<rparr>))
         else Inr h)"

text \<open>
  Modelled from the spec: \<^verbatim>\<open>task_properties::is_applicable\<close> and \<^verbatim>\<open>set_preferred\<close> are in
  files that are not among the sources. An operator is applicable in a state when each of
  its preconditions is a fact of the state; a preferred operator is added to the list of
  preferred operators once.
\<close>

definition is_applicable :: "OperatorProxy \<Rightarrow> State \<Rightarrow> bool" where
  "is_applicable op state =
     list_all (\<lambda>(var, val). var < length state \<and> state ! var = val) (get_preconditions op)"

definition set_preferred :: "nat \<Rightarrow> FFHeuristic \<Rightarrow> FFHeuristic" where
  "set_preferred op_no h = h\<lparr>preferred_operators := List.insert op_no (preferred_operators h)\<rparr>"

text \<open>
  Modelled from the spec: \<^verbatim>\<open>compute_add_and_ff\<close> (of the base class, not among the
  sources) runs the exploration with the state as seed and no exclusions; it returns
  \<^verbatim>\<open>DEAD_END\<close> if some goal fact has infinite cost and the sum of the goal facts' costs
  otherwise, and leaves the proposition table of the run in the object.
\<close>

definition compute_add_and_ff :: "FFHeuristic \<Rightarrow> State \<Rightarrow> int \<times> FFHeuristic" where
  "compute_add_and_ff h state =
     (let props = explore state [] {} (unary_operators h);
          h1 = h\<lparr>propositions := props\<rparr>
      in if list_ex (\<lambda>goal_id. cost (props goal_id) = None) (goal_propositions h1)
         then (DEAD_END, h1)
         else (int (sum_list (map (\<lambda>goal_id. case cost (props goal_id) of None \<Rightarrow> 0 | Some c \<Rightarrow> c)
                                (goal_propositions h1))), h1))"

text \<open>
  \<^verbatim>\<open>mark_preferred_operators_and_relaxed_plan\<close>. The recursion follows the
  \<^verbatim>\<open>reached_by\<close> links, which need not be acyclic, so the function takes fuel: the depth of
  recursion it may use; \<open>None\<close> is the answer of a call that ran out of it. The loop over the
  preconditions is \<open>mark_preconditions\<close>, which carries \<^verbatim>\<open>is_preferred\<close>. An index outside
  the unary operators, the membership array or the operators (where the source's behaviour
  is undefined) stops the call, and so does the failed \<^verbatim>\<open>assert\<close> of applicability.
\<close>

fun mark_preferred_operators_and_relaxed_plan ::
    "nat \<Rightarrow> State \<Rightarrow> FFHeuristic \<Rightarrow> FactPair \<Rightarrow> (error + FFHeuristic) option"
  and mark_preconditions ::
    "nat \<Rightarrow> State \<Rightarrow> FactPair list \<Rightarrow> bool \<Rightarrow> FFHeuristic \<Rightarrow> (error + FFHeuristic \<times> bool) option"
where
  "mark_preferred_operators_and_relaxed_plan 0 state h goal_id = None"
| "mark_preferred_operators_and_relaxed_plan (Suc fuel) state h goal_id =
     (let goal = propositions h goal_id in
      if marked goal then Some (Inr h)
      else
        let h1 = h\<lparr>propositions := (propositions h)(goal_id := goal\<lparr>marked := True\<rparr>)\<rparr>;
            op_id = reached_by goal
        in if op_id = NO_OP then Some (Inr h1)
           else if op_id < 0 \<or> int (length (unary_operators h1)) \<le> op_id then Some (Inl OutOfRange)
           else
             let unary_op = unary_operators h1 ! nat op_id in
             case mark_preconditions fuel state (precondition unary_op) True h1 of
               None \<Rightarrow> None
             | Some (Inl e) \<Rightarrow> Some (Inl e)
             | Some (Inr (h2, is_preferred)) \<Rightarrow>
                 let op_no = operator_no unary_op in
                 if op_no = - 1 then Some (Inr h2)
                 else if op_no < 0 \<or> int (length (relaxed_plan h2)) \<le> op_no
                   then Some (Inl OutOfRange)
                 else
                   let h3 = h2\<lparr>relaxed_plan := (relaxed_plan h2)[nat op_no := True]\<rparr> in
                   if is_preferred then
                     if int (length (get_operators (ff_task h3))) \<le> op_no
                       then Some (Inl OutOfRange)
                     else
                       let op = get_operators (ff_task h3) ! nat op_no in
                       if is_applicable op state then Some (Inr (set_preferred (nat op_no) h3))
                       else Some (Inl AssertionFailed)
                   else Some (Inr h3))"
| "mark_preconditions fuel state [] is_preferred h = Some (Inr (h, is_preferred))"
| "mark_preconditions fuel state (precond # rest) is_preferred h =
     (case mark_preferred_operators_and_relaxed_plan fuel state h precond of
        None \<Rightarrow> None
      | Some (Inl e) \<Rightarrow> Some (Inl e)
      | Some (Inr h1) \<Rightarrow>
          mark_preconditions fuel state rest
            (if reached_by (propositions h1 precond) \<noteq> NO_OP then False else is_preferred) h1)"

text \<open>The loop \<^verbatim>\<open>for (PropID goal_id : goal_propositions)\<close> of \<^verbatim>\<open>compute_heuristic\<close>.\<close>

fun mark_goals :: "nat \<Rightarrow> State \<Rightarrow> FactPair list \<Rightarrow> FFHeuristic \<Rightarrow> (error + FFHeuristic) option" where
  "mark_goals fuel state [] h = Some (Inr h)"
| "mark_goals fuel state (goal_id # rest) h =
     (case mark_preferred_operators_and_relaxed_plan fuel state h goal_id of
        None \<Rightarrow> None
      | Some (Inl e) \<Rightarrow> Some (Inl e)
      | Some (Inr h1) \<Rightarrow> mark_goals fuel state rest h1)"

text \<open>
  \<^verbatim>\<open>op_weights[op_type]\<close>: the subscript of a standard map returns the stored weight, and for
  a key that is not there it stores 0.0 under the key and returns that.
\<close>

definition op_weights_at :: "string \<Rightarrow> FFHeuristic \<Rightarrow> double \<times> FFHeuristic" where
  "op_weights_at op_type h =
     (case op_weights h op_type of
        Some w \<Rightarrow> (w, h)
      | None \<Rightarrow> (Finite 0 0, h\<lparr>op_weights := (op_weights h)(op_type \<mapsto> Finite 0 0)\<rparr>))"

text \<open>\<^verbatim>\<open>name.substr(0, name.find(" "))\<close>: the name up to its first space, all of it if it has none.\<close>

definition op_type_of :: "string \<Rightarrow> string" where
  "op_type_of name = takeWhile (\<lambda>c. c \<noteq> CHR '' '') name"

text \<open>
  The loop over the membership array: every entry that is set is cleared, the operator's
  cost is added to the \<^verbatim>\<open>int\<close> \<^verbatim>\<open>h_ff\<close> and, in learned-weight mode, the weight of its family
  to the \<^verbatim>\<open>double\<close> \<^verbatim>\<open>adj_h_ff\<close>.
\<close>

fun sum_relaxed_plan ::
  "nat list \<Rightarrow> int \<times> double \<times> FFHeuristic \<Rightarrow> error + int \<times> double \<times> FFHeuristic" where
  "sum_relaxed_plan [] acc = Inr acc"
| "sum_relaxed_plan (op_no # rest) (h_ff, adj_h_ff, h) =
     (if relaxed_plan h ! op_no then
        if length (get_operators (ff_task h)) \<le> op_no then Inl OutOfRange
        else
          let h1 = h\<lparr>relaxed_plan := (relaxed_plan h)[op_no := False]\<rparr>;
              h_ff1 = int_wrap (h_ff + int (get_cost (get_operators (ff_task h1) ! op_no)))
          in if use_learned_weights h1 then
               let op_type = op_type_of (get_name (get_operators (ff_task h1) ! op_no));
                   (w, h2) = op_weights_at op_type h1
               in sum_relaxed_plan rest (h_ff1, dadd adj_h_ff w, h2)
             else sum_relaxed_plan rest (h_ff1, adj_h_ff, h1)
      else sum_relaxed_plan rest (h_ff, adj_h_ff, h))"

text \<open>
  \<^verbatim>\<open>compute_heuristic\<close>. The heuristic works on the task itself, so the conversion of the
  ancestor state changes nothing. The two sums start at 0 and 0.0; in learned-weight mode
  the function returns \<^verbatim>\<open>ceil(adj_h_ff)\<close>, a \<^verbatim>\<open>double\<close>, as the \<^verbatim>\<open>int\<close> of its return type.
\<close>

definition convert_ancestor_state :: "State \<Rightarrow> State" where
  "convert_ancestor_state ancestor_state = ancestor_state"

definition compute_heuristic ::
  "nat \<Rightarrow> FFHeuristic \<Rightarrow> State \<Rightarrow> (error + int \<times> FFHeuristic) option" where
  "compute_heuristic fuel h ancestor_state =
     (let state = convert_ancestor_state ancestor_state;
          (h_add, h1) = compute_add_and_ff h state
      in if h_add = DEAD_END then Some (Inr (h_add, h1))
         else
           case mark_goals fuel state (goal_propositions h1) h1 of
             None \<Rightarrow> None
           | Some (Inl e) \<Rightarrow> Some (Inl e)
           | Some (Inr h2) \<Rightarrow>
               (case sum_relaxed_plan [0..<length (relaxed_plan h2)] (0, Finite 0 0, h2) of
                  Inl e \<Rightarrow> Some (Inl e)
                | Inr (h_ff, adj_h_ff, h3) \<Rightarrow>
                    if use_learned_weights h3 then
                      (case double_to_int (dceil adj_h_ff) of
                         Inl e \<Rightarrow> Some (Inl e)
                       | Inr v \<Rightarrow> Some (Inr (v, h3)))
                    else Some (Inr (h_ff, h3))))"

section \<open>Small tasks and heuristic objects\<close>

text \<open>
  Three binary variables, all 0 at the start. Operator 0 makes variable 1 true from
  variable 0 being 0, operator 1 needs variable 1 true, and an axiom derives variable 2
  from variable 1; the goal is variable 2. The landmark is the fact that variable 1 is true.
\<close>

definition axiom_task :: TaskProxy where
  "axiom_task = \<lparr>get_variables = [2, 2, 2],
     get_operators = [\<lparr>get_name = ''make-l a'', get_preconditions = [(0, 0)],
        get_effects = [\<lparr>get_conditions = [], get_fact = (1, 1)\<rparr>], get_cost = 1\<rparr>,
       \<lparr>get_name = ''use-l a'', get_preconditions = [(1, 1)],
        get_effects = [\<lparr>get_conditions = [], get_fact = (0, 1)\<rparr>], get_cost = 1\<rparr>],
     get_axioms = [\<lparr>get_name = ''<axiom>'', get_preconditions = [(2, 0)],
        get_effects = [\<lparr>get_conditions = [(1, 1)], get_fact = (2, 1)\<rparr>], get_cost = 0\<rparr>],
     get_initial_state = [0, 0, 0],
     get_goals = [(2, 1)]\<rparr>"

definition axiom_landmark :: Landmark where
  "axiom_landmark =
     \<lparr>facts = [(1, 1)], disjunctive = False, conjunctive = False, is_true_in_goal = False\<rparr>"

definition goal_landmark :: Landmark where
  "goal_landmark =
     \<lparr>facts = [(2, 1)], disjunctive = False, conjunctive = False, is_true_in_goal = True\<rparr>"

definition axiom_graph :: LandmarkGraph where
  "axiom_graph =
     \<lparr>get_nodes = [\<lparr>get_id = 0, get_landmark = axiom_landmark\<rparr>,
                   \<lparr>get_id = 1, get_landmark = goal_landmark\<rparr>],
      get_edges = [(0, 1)]\<rparr>"

text \<open>
  A task with two operators in a row: pick-up makes variable 0 true, put-down needs it and
  makes variable 1 true, which is the goal.
\<close>

definition blocks_task :: TaskProxy where
  "blocks_task = \<lparr>get_variables = [2, 2],
     get_operators = [\<lparr>get_name = ''pick-up a'', get_preconditions = [(0, 0)],
        get_effects = [\<lparr>get_conditions = [], get_fact = (0, 1)\<rparr>], get_cost = 1\<rparr>,
       \<lparr>get_name = ''put-down a'', get_preconditions = [(0, 1)],
        get_effects = [\<lparr>get_conditions = [], get_fact = (1, 1)\<rparr>], get_cost = 1\<rparr>],
     get_axioms = [],
     get_initial_state = [0, 0],
     get_goals = [(1, 1)]\<rparr>"

text \<open>The same task with operator names that have two arguments.\<close>

definition gripper_task :: TaskProxy where
  "gripper_task = \<lparr>get_variables = [2, 2],
     get_operators = [\<lparr>get_name = ''pick-up ball left'', get_preconditions = [(0, 0)],
        get_effects = [\<lparr>get_conditions = [], get_fact = (0, 1)\<rparr>], get_cost = 1\<rparr>,
       \<lparr>get_name = ''put-down ball left'', get_preconditions = [(0, 1)],
        get_effects = [\<lparr>get_conditions = [], get_fact = (1, 1)\<rparr>], get_cost = 1\<rparr>],
     get_axioms = [],
     get_initial_state = [0, 0],
     get_goals = [(1, 1)]\<rparr>"

text \<open>
  A proposition table whose \<^verbatim>\<open>reached_by\<close> links form a cycle: fact (0, 1) is reached by
  unary operator 0, which needs fact (1, 1), which is reached by unary operator 1, which
  needs fact (0, 1).
\<close>

definition cyclic_heuristic :: FFHeuristic where
  "cyclic_heuristic =
     \<lparr>ff_task = blocks_task,
      unary_operators =
        [\<lparr>operator_no = 0, precondition = [(1, 1)], effect = (0, 1), base_cost = 1\<rparr>,
         \<lparr>operator_no = 1, precondition = [(0, 1)], effect = (1, 1), base_cost = 1\<rparr>],
      goal_propositions = [(1, 1)],
      propositions = (\<lambda>f. \<lparr>cost = Some 1,
                            reached_by = (if f = (0, 1) then 0 else if f = (1, 1) then 1 else NO_OP),
                            marked = False\<rparr>),
      relaxed_plan = [False, False],
      preferred_operators = [],
      use_learned_weights = False,
      op_weights = Map.empty\<rparr>"

text \<open>A heuristic object as the constructor leaves it, for a task, a mode and a weight table.\<close>

definition fresh_heuristic :: "TaskProxy \<Rightarrow> bool \<Rightarrow> (string \<Rightarrow> double option) \<Rightarrow> FFHeuristic" where
  "fresh_heuristic task learned table =
     \<lparr>ff_task = task,
      unary_operators = build_unary_operators task,
      goal_propositions = get_goals task,
      propositions = (\<lambda>f. \<lparr>cost = None, reached_by = NO_OP, marked = False\<rparr>),
      relaxed_plan = replicate (length (get_operators task)) False,
      preferred_operators = [],
      use_learned_weights = learned,
      op_weights = table\<rparr>"

text \<open>What a call of \<^verbatim>\<open>compute_heuristic\<close> returned, without the object.\<close>

definition value_of :: "(error + int \<times> FFHeuristic) option \<Rightarrow> (error + int) option" where
  "value_of r = map_option (map_sum id fst) r"

section \<open>Properties of the landmark tests\<close>

lemma collect_op_ids_eq:
  "collect_op_ids p i ops acc = acc \<union> {int (i + k) | k. k < length ops \<and> p (ops ! k)}"
proof (induction ops arbitrary: i acc)
  case Nil
  then show ?case by simp
next
  case (Cons op ops)
  have split: "{int (i + k) | k. k < length (op # ops) \<and> p ((op # ops) ! k)}
      = (if p op then {int i} else {}) \<union> {int (Suc i + k) | k. k < length ops \<and> p (ops ! k)}"
  proof (rule set_eqI, rule iffI)
    fix x
    assume "x \<in> {int (i + k) | k. k < length (op # ops) \<and> p ((op # ops) ! k)}"
    then obtain k where k: "x = int (i + k)" "k < length (op # ops)" "p ((op # ops) ! k)"
      by blast
    show "x \<in> (if p op then {int i} else {}) \<union> {int (Suc i + k) | k. k < length ops \<and> p (ops ! k)}"
    proof (cases k)
      case 0
      with k show ?thesis by simp
    next
      case (Suc j)
      with k have "x = int (Suc i + j)" "j < length ops" "p (ops ! j)" by simp_all
      then show ?thesis by blast
    qed
  next
    fix x
    assume "x \<in> (if p op then {int i} else {}) \<union> {int (Suc i + k) | k. k < length ops \<and> p (ops ! k)}"
    then consider "p op" "x = int i" | k where "x = int (Suc i + k)" "k < length ops" "p (ops ! k)"
      by (auto split: if_splits)
    then show "x \<in> {int (i + k) | k. k < length (op # ops) \<and> p ((op # ops) ! k)}"
    proof cases
      case 1
      then have "x = int (i + 0) \<and> 0 < length (op # ops) \<and> p ((op # ops) ! 0)" by simp
      then show ?thesis by blast
    next
      case 2
      then have "x = int (i + Suc k) \<and> Suc k < length (op # ops) \<and> p ((op # ops) ! Suc k)"
        by simp
      then show ?thesis by blast
    qed
  qed
  show ?case
    unfolding collect_op_ids.simps Cons.IH split by auto
qed

lemma achieves_non_conditional_iff:
  "achieves_non_conditional o' landmark \<longleftrightarrow>
     (\<exists>effect \<in> set (get_effects o').
        get_fact effect \<in> set (facts landmark) \<and> get_conditions effect = [])"
  by (auto simp: achieves_non_conditional_def list_ex_iff)

lemma some_goal_at_max_iff:
  "some_goal_at_max task_proxy lvl_var \<longleftrightarrow>
     (\<exists>goal \<in> set (get_goals task_proxy). lvl_var ! fst goal ! snd goal = numeric_limits_int_max)"
  by (simp add: some_goal_at_max_def list_ex_iff)

lemma remove_node_conditions_Inr:
  "remove_node_conditions c ns = Inr bs \<Longrightarrow> map c ns = map Inr bs"
  by (induction ns arbitrary: bs) (auto split: sum.splits)

lemma remove_node_conditions_total:
  "(\<forall>node \<in> set ns. \<exists>b. c node = Inr b) \<Longrightarrow> \<exists>bs. remove_node_conditions c ns = Inr bs"
  by (induction ns) (auto split: sum.splits)

lemma filter_zip_map:
  "map c ns = map Inr bs \<Longrightarrow>
   map fst (filter (\<lambda>(node, b). P b) (zip ns bs)) = filter (\<lambda>node. \<exists>b. c node = Inr b \<and> P b) ns"
proof (induction ns arbitrary: bs)
  case Nil
  then show ?case by simp
next
  case (Cons node ns)
  then obtain b bs' where bs: "bs = b # bs'" by (cases bs) auto
  with Cons.prems have "c node = Inr b" "map c ns = map Inr bs'" by simp_all
  with Cons.IH [of bs'] bs show ?case by simp
qed

lemma removed_ids:
  "map c ns = map Inr bs \<Longrightarrow>
   set (map (get_id \<circ> fst) (filter snd (zip ns bs))) = get_id ` {node \<in> set ns. c node = Inr True}"
proof -
  assume m: "map c ns = map Inr bs"
  have "map (get_id \<circ> fst) (filter snd (zip ns bs))
      = map get_id (map fst (filter (\<lambda>(node, b). b) (zip ns bs)))"
    by (simp add: case_prod_unfold)
  also have "\<dots> = map get_id (filter (\<lambda>node. \<exists>b. c node = Inr b \<and> b) ns)"
    using filter_zip_map [OF m, of "\<lambda>b. b"] by simp
  finally show ?thesis by auto
qed

lemma kept_nodes:
  "map c ns = map Inr bs \<Longrightarrow>
   map fst (filter (\<lambda>(node, b). \<not> b) (zip ns bs)) = filter (\<lambda>node. c node = Inr False) ns"
proof -
  assume m: "map c ns = map Inr bs"
  have "(\<exists>b. c node = Inr b \<and> \<not> b) \<longleftrightarrow> c node = Inr False" for node
    by auto
  then show ?thesis
    using filter_zip_map [OF m, of "\<lambda>b. \<not> b"] by simp
qed

lemma length_filter_split:
  "(\<forall>x \<in> set xs. P x \<noteq> Q x) \<Longrightarrow>
   int (length xs) - int (length (filter P xs)) = int (length (filter Q xs))"
  by (induction xs) auto

subsection \<open>The solvability test\<close>

text \<open>
  Claim C4. For every landmark, \<^verbatim>\<open>relaxed_task_solvable\<close> hands the exploration the
  landmark's facts as excluded facts and, as excluded operators, exactly the ids of the
  operators with some effect whose fact is a fact of the landmark and whose condition list
  is empty; it returns true if and only if no goal fact is left at
  \<^verbatim>\<open>numeric_limits<int>::max()\<close> in the level table that the exploration returns, and it
  returns that table.
\<close>

theorem relaxed_task_solvable_excludes_unconditional_achievers:
  "relaxed_task_solvable task_proxy exploration lvl_var exclude =
     (let levels = exploration (init_lvl_var task_proxy lvl_var) (facts exclude)
            {int i | i. i < length (get_operators task_proxy) \<and>
               (\<exists>effect \<in> set (get_effects (get_operators task_proxy ! i)).
                  get_fact effect \<in> set (facts exclude) \<and> get_conditions effect = [])}
      in ((\<forall>goal \<in> set (get_goals task_proxy).
             levels ! fst goal ! snd goal \<noteq> numeric_limits_int_max), levels))"
  by (simp add: relaxed_task_solvable_def relaxed_task_solvable_exclude_op_ids_def Let_def
      collect_op_ids_eq some_goal_at_max_iff achieves_non_conditional_iff)

text \<open>
  In the task with the axiom, with the landmark excluded: operator 0 is the one
  unconditional achiever, the landmark fact is never reached and the goal stays at
  \<^verbatim>\<open>numeric_limits<int>::max()\<close>.
\<close>

theorem relaxed_task_solvable_excludes_unconditional_achievers_witness:
  "relaxed_task_solvable_exclude_op_ids axiom_task axiom_landmark = {0}
   \<and> relaxed_task_solvable axiom_task (compute_reachability_with_excludes axiom_task) []
       axiom_landmark = (False, [[0, 2147483647], [0, 2147483647], [0, 2147483647]])
   \<and> (let levels = compute_reachability_with_excludes axiom_task (init_lvl_var axiom_task [])
            (facts axiom_landmark)
            {int i | i. i < length (get_operators axiom_task) \<and>
               (\<exists>effect \<in> set (get_effects (get_operators axiom_task ! i)).
                  get_fact effect \<in> set (facts axiom_landmark) \<and> get_conditions effect = [])}
      in ((\<forall>goal \<in> set (get_goals axiom_task).
             levels ! fst goal ! snd goal \<noteq> numeric_limits_int_max), levels))
     = (False, [[0, 2147483647], [0, 2147483647], [0, 2147483647]])"
proof -
  have ids: "relaxed_task_solvable_exclude_op_ids axiom_task axiom_landmark = {0}"
    by code_simp
  have run: "relaxed_task_solvable axiom_task (compute_reachability_with_excludes axiom_task) []
       axiom_landmark = (False, [[0, 2147483647], [0, 2147483647], [0, 2147483647]])"
    by code_simp
  show ?thesis
    using ids run
      relaxed_task_solvable_excludes_unconditional_achievers
        [of axiom_task "compute_reachability_with_excludes axiom_task" "[]" axiom_landmark]
    by simp
qed

subsection \<open>The causal test\<close>

text \<open>
  Claim C1, as the source has it. For every landmark that is not conjunctive (the
  function asserts it) and not true in the goal, \<^verbatim>\<open>is_causal_landmark\<close> hands the
  exploration no excluded fact at all and, as excluded operators, exactly the ids of the
  operators that have a fact of the landmark among their preconditions; the landmark is
  reported causal exactly when some goal fact is left at \<^verbatim>\<open>numeric_limits<int>::max()\<close>.
\<close>

theorem is_causal_landmark_excludes_no_facts:
  "\<not> conjunctive landmark \<Longrightarrow> \<not> is_true_in_goal landmark \<Longrightarrow>
   is_causal_landmark task_proxy exploration landmark =
     Inr (\<exists>goal \<in> set (get_goals task_proxy).
            exploration (init_lvl_var task_proxy []) []
              {int i | i. i < length (get_operators task_proxy) \<and>
                 (\<exists>pre \<in> set (get_preconditions (get_operators task_proxy ! i)).
                    pre \<in> set (facts landmark))}
              ! fst goal ! snd goal = numeric_limits_int_max)"
  by (simp add: is_causal_landmark_def is_causal_landmark_exclude_op_ids_def Let_def
      collect_op_ids_eq some_goal_at_max_iff is_landmark_precondition_def list_ex_iff)

theorem is_causal_landmark_excludes_no_facts_witness:
  "\<not> conjunctive axiom_landmark \<and> \<not> is_true_in_goal axiom_landmark
   \<and> is_causal_landmark_exclude_op_ids axiom_task axiom_landmark = {1}
   \<and> is_causal_landmark axiom_task (compute_reachability_with_excludes axiom_task)
       axiom_landmark = Inr False
   \<and> is_causal_landmark axiom_task (compute_reachability_with_excludes axiom_task)
       axiom_landmark =
     Inr (\<exists>goal \<in> set (get_goals axiom_task).
            compute_reachability_with_excludes axiom_task (init_lvl_var axiom_task []) []
              {int i | i. i < length (get_operators axiom_task) \<and>
                 (\<exists>pre \<in> set (get_preconditions (get_operators axiom_task ! i)).
                    pre \<in> set (facts axiom_landmark))}
              ! fst goal ! snd goal = numeric_limits_int_max)"
proof -
  have c: "\<not> conjunctive axiom_landmark" and g: "\<not> is_true_in_goal axiom_landmark"
    by (simp_all add: axiom_landmark_def)
  have ids: "is_causal_landmark_exclude_op_ids axiom_task axiom_landmark = {1}"
    by code_simp
  have run: "is_causal_landmark axiom_task (compute_reachability_with_excludes axiom_task)
       axiom_landmark = Inr False"
    by code_simp
  show ?thesis
    by (intro conjI c g ids run is_causal_landmark_excludes_no_facts [OF c g])
qed

text \<open>
  The claim as it was stated has the landmark's own facts excluded as well. In the task
  with the axiom the two differ: the source excludes operator 1 only, the axiom still
  derives the goal from the landmark fact, and the landmark is reported not causal; with
  the landmark fact excluded the goal would stay unreached.
\<close>

theorem is_causal_landmark_excluded_facts_counterexample:
  "is_causal_landmark axiom_task (compute_reachability_with_excludes axiom_task) axiom_landmark
     = Inr False
   \<and> some_goal_at_max axiom_task
       (compute_reachability_with_excludes axiom_task (init_lvl_var axiom_task [])
          (facts axiom_landmark) (is_causal_landmark_exclude_op_ids axiom_task axiom_landmark))"
  by code_simp

text \<open>
  Claim C10. The excluded operator ids of the causal test are ids of operators of the
  task, never the number of an axiom; so every unary operator that comes from an axiom is
  enabled in the causal exploration (no fact is excluded there either), whatever its
  preconditions are.
\<close>

theorem is_causal_landmark_never_excludes_axioms:
  "is_causal_landmark_exclude_op_ids task_proxy landmark
     \<subseteq> {int i | i. i < length (get_operators task_proxy)}
   \<and> (\<forall>axiom \<in> set (get_axioms task_proxy).
        \<forall>rule \<in> set (build_unary_operators_of (- 1) 0 axiom).
          rule_enabled [] (is_causal_landmark_exclude_op_ids task_proxy landmark) rule)"
  by (auto simp: is_causal_landmark_exclude_op_ids_def collect_op_ids_eq rule_enabled_def
      build_unary_operators_of_def)

text \<open>
  In the task with the axiom, operator 1 is excluded, and the unary operator of the axiom,
  which has the landmark fact among its preconditions, is enabled.
\<close>

theorem is_causal_landmark_never_excludes_axioms_witness:
  "is_causal_landmark_exclude_op_ids axiom_task axiom_landmark = {1}
   \<and> build_unary_operators_of (- 1) 0 (hd (get_axioms axiom_task))
       = [\<lparr>operator_no = - 1, precondition = [(2, 0), (1, 1)], effect = (2, 1), base_cost = 0\<rparr>]
   \<and> rule_enabled [] (is_causal_landmark_exclude_op_ids axiom_task axiom_landmark)
       \<lparr>operator_no = - 1, precondition = [(2, 0), (1, 1)], effect = (2, 1), base_cost = 0\<rparr>"
proof -
  have ids: "is_causal_landmark_exclude_op_ids axiom_task axiom_landmark = {1}"
    by code_simp
  have ax: "hd (get_axioms axiom_task) \<in> set (get_axioms axiom_task)"
    by (simp add: axiom_task_def)
  have rules: "build_unary_operators_of (- 1) 0 (hd (get_axioms axiom_task))
       = [\<lparr>operator_no = - 1, precondition = [(2, 0), (1, 1)], effect = (2, 1), base_cost = 0\<rparr>]"
    by (simp add: axiom_task_def build_unary_operators_of_def)
  have "\<forall>rule \<in> set (build_unary_operators_of (- 1) 0 (hd (get_axioms axiom_task))).
          rule_enabled [] (is_causal_landmark_exclude_op_ids axiom_task axiom_landmark) rule"
    using is_causal_landmark_never_excludes_axioms [of axiom_task axiom_landmark] ax by blast
  then show ?thesis
    using ids rules by simp
qed


lemma remove_node_if_Inr:
  assumes "remove_node_if c lm_graph = Inr lm_graph'"
  shows "get_nodes lm_graph' = filter (\<lambda>node. c node = Inr False) (get_nodes lm_graph)"
    and "get_edges lm_graph' =
           filter (\<lambda>(parent, child).
               parent \<notin> get_id ` {node \<in> set (get_nodes lm_graph). c node = Inr True} \<and>
               child \<notin> get_id ` {node \<in> set (get_nodes lm_graph). c node = Inr True})
             (get_edges lm_graph)"
    and "\<forall>node \<in> set (get_nodes lm_graph). c node = Inr True \<or> c node = Inr False"
proof -
  from assms obtain bs where bs: "remove_node_conditions c (get_nodes lm_graph) = Inr bs"
    by (auto simp: remove_node_if_def split: sum.splits)
  then have m: "map c (get_nodes lm_graph) = map Inr bs"
    by (rule remove_node_conditions_Inr)
  from assms bs have g': "lm_graph' =
      \<lparr>get_nodes = map fst (filter (\<lambda>(node, b). \<not> b) (zip (get_nodes lm_graph) bs)),
       get_edges = filter (\<lambda>(parent, child).
           parent \<notin> set (map (get_id \<circ> fst) (filter snd (zip (get_nodes lm_graph) bs))) \<and>
           child \<notin> set (map (get_id \<circ> fst) (filter snd (zip (get_nodes lm_graph) bs))))
         (get_edges lm_graph)\<rparr>"
    by (simp add: remove_node_if_def Let_def)
  show "get_nodes lm_graph' = filter (\<lambda>node. c node = Inr False) (get_nodes lm_graph)"
    by (simp add: g' kept_nodes [OF m])
  show "get_edges lm_graph' =
           filter (\<lambda>(parent, child).
               parent \<notin> get_id ` {node \<in> set (get_nodes lm_graph). c node = Inr True} \<and>
               child \<notin> get_id ` {node \<in> set (get_nodes lm_graph). c node = Inr True})
             (get_edges lm_graph)"
    unfolding g' removed_ids [OF m] by simp
  show "\<forall>node \<in> set (get_nodes lm_graph). c node = Inr True \<or> c node = Inr False"
  proof
    fix node assume "node \<in> set (get_nodes lm_graph)"
    then have "c node \<in> set (map c (get_nodes lm_graph))" by simp
    then have "c node \<in> set (map Inr bs)" by (simp only: m)
    then show "c node = Inr True \<or> c node = Inr False" by auto
  qed
qed

lemma remove_node_if_total:
  "(\<forall>node \<in> set (get_nodes lm_graph). \<exists>b. c node = Inr b) \<Longrightarrow>
   \<exists>lm_graph'. remove_node_if c lm_graph = Inr lm_graph'"
  using remove_node_conditions_total [of "get_nodes lm_graph" c]
  by (auto simp: remove_node_if_def Let_def)

lemma not_causal_simps:
  "not_causal t e node = Inr True \<longleftrightarrow> is_causal_landmark t e (get_landmark node) = Inr False"
  "not_causal t e node = Inr False \<longleftrightarrow> is_causal_landmark t e (get_landmark node) = Inr True"
  by (auto simp: not_causal_def split: sum.splits)

subsection \<open>Discarding the landmarks that are not causal\<close>

text \<open>
  Claim C7. A landmark that is true in the goal (and not conjunctive, which the function
  asserts) is causal whatever the exploration is, so without running it. When
  \<^verbatim>\<open>discard_noncausal_landmarks\<close> returns, the nodes left are exactly those whose causal
  test returned true, in their order, the edges left are exactly those that touch no
  removed node, and the number reported is the number of nodes whose causal test returned
  false. It returns whenever the task has no conditional effects and no landmark of the
  graph is conjunctive.
\<close>

theorem discard_noncausal_landmarks_removes_noncausal:
  "(\<not> conjunctive landmark \<longrightarrow> is_true_in_goal landmark \<longrightarrow>
      (\<forall>exploration'. is_causal_landmark task_proxy exploration' landmark = Inr True))
   \<and> (discard_noncausal_landmarks task_proxy exploration lm_graph = Inr (lm_graph', discarded) \<longrightarrow>
        get_nodes lm_graph' =
          filter (\<lambda>node. is_causal_landmark task_proxy exploration (get_landmark node) = Inr True)
            (get_nodes lm_graph)
        \<and> get_edges lm_graph' =
          filter (\<lambda>(parent, child).
              \<forall>node \<in> set (get_nodes lm_graph).
                is_causal_landmark task_proxy exploration (get_landmark node) = Inr False \<longrightarrow>
                get_id node \<noteq> parent \<and> get_id node \<noteq> child)
            (get_edges lm_graph)
        \<and> discarded =
          int (length (filter
            (\<lambda>node. is_causal_landmark task_proxy exploration (get_landmark node) = Inr False)
            (get_nodes lm_graph))))
   \<and> (\<not> has_conditional_effects task_proxy \<longrightarrow>
        (\<forall>node \<in> set (get_nodes lm_graph). \<not> conjunctive (get_landmark node)) \<longrightarrow>
        (\<exists>lm_graph' discarded.
           discard_noncausal_landmarks task_proxy exploration lm_graph = Inr (lm_graph', discarded)))"
proof (intro conjI impI allI)
  fix exploration'
  assume "\<not> conjunctive landmark" "is_true_in_goal landmark"
  then show "is_causal_landmark task_proxy exploration' landmark = Inr True"
    by (simp add: is_causal_landmark_def)
next
  assume d: "discard_noncausal_landmarks task_proxy exploration lm_graph = Inr (lm_graph', discarded)"
  let ?c = "not_causal task_proxy exploration"
  from d have r: "remove_node_if ?c lm_graph = Inr lm_graph'"
    and n: "discarded = int (length (get_nodes lm_graph)) - int (length (get_nodes lm_graph'))"
    by (auto simp: discard_noncausal_landmarks_def Let_def
        split: if_splits sum.splits)
  note R = remove_node_if_Inr [OF r]
  show "get_nodes lm_graph' =
          filter (\<lambda>node. is_causal_landmark task_proxy exploration (get_landmark node) = Inr True)
            (get_nodes lm_graph)"
    using R(1) by (simp add: not_causal_simps)
  have "(parent \<notin> get_id ` {node \<in> set (get_nodes lm_graph). ?c node = Inr True} \<and>
         child \<notin> get_id ` {node \<in> set (get_nodes lm_graph). ?c node = Inr True})
      \<longleftrightarrow> (\<forall>node \<in> set (get_nodes lm_graph).
                is_causal_landmark task_proxy exploration (get_landmark node) = Inr False \<longrightarrow>
                get_id node \<noteq> parent \<and> get_id node \<noteq> child)" for parent child
    by (auto simp: not_causal_simps)
  then show "get_edges lm_graph' =
          filter (\<lambda>(parent, child).
              \<forall>node \<in> set (get_nodes lm_graph).
                is_causal_landmark task_proxy exploration (get_landmark node) = Inr False \<longrightarrow>
                get_id node \<noteq> parent \<and> get_id node \<noteq> child)
            (get_edges lm_graph)"
    using R(2) by simp
  have "\<forall>node \<in> set (get_nodes lm_graph). (?c node = Inr False) \<noteq> (?c node = Inr True)"
    using R(3) by auto
  from length_filter_split [OF this] n R(1)
  show "discarded = int (length (filter
            (\<lambda>node. is_causal_landmark task_proxy exploration (get_landmark node) = Inr False)
            (get_nodes lm_graph)))"
    by (simp add: not_causal_simps)
next
  assume nc: "\<not> has_conditional_effects task_proxy"
    and cj: "\<forall>node \<in> set (get_nodes lm_graph). \<not> conjunctive (get_landmark node)"
  have "\<forall>node \<in> set (get_nodes lm_graph). \<exists>b. not_causal task_proxy exploration node = Inr b"
    using cj by (auto simp: not_causal_def is_causal_landmark_def Let_def)
  from remove_node_if_total [OF this] obtain g' where
    "remove_node_if (not_causal task_proxy exploration) lm_graph = Inr g'" by blast
  then show "\<exists>lm_graph' discarded.
           discard_noncausal_landmarks task_proxy exploration lm_graph = Inr (lm_graph', discarded)"
    using nc by (simp add: discard_noncausal_landmarks_def Let_def)
qed


text \<open>
  In the graph of the task with the axiom, the landmark that is true in the goal stays and
  the other one goes, with the edge between them; one landmark is reported.
\<close>

theorem discard_noncausal_landmarks_removes_noncausal_witness:
  "\<not> conjunctive goal_landmark \<and> is_true_in_goal goal_landmark
   \<and> is_causal_landmark axiom_task (compute_reachability_with_excludes axiom_task)
       goal_landmark = Inr True
   \<and> \<not> has_conditional_effects axiom_task
   \<and> discard_noncausal_landmarks axiom_task (compute_reachability_with_excludes axiom_task)
       axiom_graph
     = Inr (\<lparr>get_nodes = [\<lparr>get_id = 1, get_landmark = goal_landmark\<rparr>], get_edges = []\<rparr>, 1)
   \<and> [\<lparr>get_id = 1, get_landmark = goal_landmark\<rparr>] =
       filter (\<lambda>node. is_causal_landmark axiom_task
                 (compute_reachability_with_excludes axiom_task) (get_landmark node) = Inr True)
         (get_nodes axiom_graph)
   \<and> (1 :: int) = int (length (filter
         (\<lambda>node. is_causal_landmark axiom_task
            (compute_reachability_with_excludes axiom_task) (get_landmark node) = Inr False)
         (get_nodes axiom_graph)))"
proof -
  let ?e = "compute_reachability_with_excludes axiom_task"
  let ?g = "\<lparr>get_nodes = [\<lparr>get_id = 1, get_landmark = goal_landmark\<rparr>], get_edges = []\<rparr>"
  have c: "\<not> conjunctive goal_landmark" and g: "is_true_in_goal goal_landmark"
    by (simp_all add: goal_landmark_def)
  have nc: "\<not> has_conditional_effects axiom_task"
    by code_simp
  have run: "discard_noncausal_landmarks axiom_task ?e axiom_graph = Inr (?g, 1)"
    by code_simp
  note inst = discard_noncausal_landmarks_removes_noncausal
    [of goal_landmark axiom_task ?e axiom_graph ?g 1]
  from inst c g have causal: "is_causal_landmark axiom_task ?e goal_landmark = Inr True"
    by blast
  from inst run have
    "get_nodes ?g = filter (\<lambda>node. is_causal_landmark axiom_task ?e (get_landmark node) = Inr True)
         (get_nodes axiom_graph)"
    "(1 :: int) = int (length (filter
         (\<lambda>node. is_causal_landmark axiom_task ?e (get_landmark node) = Inr False)
         (get_nodes axiom_graph)))"
    by blast+
  then show ?thesis
    using c g nc run causal by simp
qed

section \<open>Properties of the FF heuristic\<close>

subsection \<open>The backward chaining, step by step\<close>

text \<open>
  Two parts of \<^verbatim>\<open>mark_preferred_operators_and_relaxed_plan\<close> under names of their own, for
  the proofs: setting the flag of the proposition, and what the function does with the unary
  operator once the loop over its preconditions has returned.
\<close>

definition mark_goal :: "FactPair \<Rightarrow> FFHeuristic \<Rightarrow> FFHeuristic" where
  "mark_goal goal_id h =
     h\<lparr>propositions := (propositions h)(goal_id := (propositions h goal_id)\<lparr>marked := True\<rparr>)\<rparr>"

definition record_operator ::
  "State \<Rightarrow> UnaryOperator \<Rightarrow> bool \<Rightarrow> FFHeuristic \<Rightarrow> error + FFHeuristic" where
  "record_operator state unary_op is_preferred h2 =
     (if operator_no unary_op = - 1 then Inr h2
      else if operator_no unary_op < 0 \<or> int (length (relaxed_plan h2)) \<le> operator_no unary_op
        then Inl OutOfRange
      else if is_preferred then
        if int (length (get_operators (ff_task h2))) \<le> operator_no unary_op then Inl OutOfRange
        else if is_applicable (get_operators (ff_task h2) ! nat (operator_no unary_op)) state
        then Inr (set_preferred (nat (operator_no unary_op))
                    (h2\<lparr>relaxed_plan := (relaxed_plan h2)[nat (operator_no unary_op) := True]\<rparr>))
        else Inl AssertionFailed
      else Inr (h2\<lparr>relaxed_plan := (relaxed_plan h2)[nat (operator_no unary_op) := True]\<rparr>))"

lemma mark_Suc:
  "mark_preferred_operators_and_relaxed_plan (Suc fuel) state h goal_id =
     (if marked (propositions h goal_id) then Some (Inr h)
      else if reached_by (propositions h goal_id) = NO_OP then Some (Inr (mark_goal goal_id h))
      else if reached_by (propositions h goal_id) < 0
              \<or> int (length (unary_operators h)) \<le> reached_by (propositions h goal_id)
        then Some (Inl OutOfRange)
      else
        case mark_preconditions fuel state
               (precondition (unary_operators h ! nat (reached_by (propositions h goal_id))))
               True (mark_goal goal_id h) of
          None \<Rightarrow> None
        | Some (Inl e) \<Rightarrow> Some (Inl e)
        | Some (Inr (h2, is_preferred)) \<Rightarrow>
            Some (record_operator state
                    (unary_operators h ! nat (reached_by (propositions h goal_id)))
                    is_preferred h2))"
  by (simp add: Let_def mark_goal_def record_operator_def split: option.splits sum.splits prod.splits)

text \<open>
  What a call leaves as it is: the task, the unary operators, the weights, the length of the
  membership array, costs and achievers; what it may only extend: the set flags, and the
  preferred operators, by operators applicable in the state.
\<close>

definition mark_frame :: "State \<Rightarrow> FFHeuristic \<Rightarrow> FFHeuristic \<Rightarrow> bool" where
  "mark_frame state h h' \<longleftrightarrow>
     ff_task h' = ff_task h \<and> unary_operators h' = unary_operators h
     \<and> goal_propositions h' = goal_propositions h
     \<and> use_learned_weights h' = use_learned_weights h \<and> op_weights h' = op_weights h
     \<and> length (relaxed_plan h') = length (relaxed_plan h)
     \<and> (\<forall>q. cost (propositions h' q) = cost (propositions h q)
             \<and> reached_by (propositions h' q) = reached_by (propositions h q)
             \<and> (marked (propositions h q) \<longrightarrow> marked (propositions h' q)))
     \<and> set (preferred_operators h) \<subseteq> set (preferred_operators h')
     \<and> (\<forall>op_no \<in> set (preferred_operators h') - set (preferred_operators h).
           op_no < length (get_operators (ff_task h))
           \<and> is_applicable (get_operators (ff_task h) ! op_no) state)"

lemma mark_frame_refl: "mark_frame state h h"
  by (simp add: mark_frame_def)

lemma mark_frame_trans [trans]:
  "mark_frame state h1 h2 \<Longrightarrow> mark_frame state h2 h3 \<Longrightarrow> mark_frame state h1 h3"
proof -
  assume a: "mark_frame state h1 h2" and b: "mark_frame state h2 h3"
  have eqs: "ff_task h3 = ff_task h1" "unary_operators h3 = unary_operators h1"
    "goal_propositions h3 = goal_propositions h1"
    "use_learned_weights h3 = use_learned_weights h1" "op_weights h3 = op_weights h1"
    "length (relaxed_plan h3) = length (relaxed_plan h1)"
    using a b by (simp_all add: mark_frame_def)
  have props: "\<forall>q. cost (propositions h3 q) = cost (propositions h1 q)
             \<and> reached_by (propositions h3 q) = reached_by (propositions h1 q)
             \<and> (marked (propositions h1 q) \<longrightarrow> marked (propositions h3 q))"
    using a b by (simp add: mark_frame_def)
  have sub: "set (preferred_operators h1) \<subseteq> set (preferred_operators h3)"
    using a b unfolding mark_frame_def by blast
  have new: "\<forall>op_no \<in> set (preferred_operators h3) - set (preferred_operators h1).
           op_no < length (get_operators (ff_task h1))
           \<and> is_applicable (get_operators (ff_task h1) ! op_no) state"
  proof
    fix op_no assume n: "op_no \<in> set (preferred_operators h3) - set (preferred_operators h1)"
    have t: "ff_task h2 = ff_task h1" using a by (simp add: mark_frame_def)
    show "op_no < length (get_operators (ff_task h1))
           \<and> is_applicable (get_operators (ff_task h1) ! op_no) state"
    proof (cases "op_no \<in> set (preferred_operators h2)")
      case True
      with n a show ?thesis unfolding mark_frame_def by blast
    next
      case False
      with n b have "op_no < length (get_operators (ff_task h2))
           \<and> is_applicable (get_operators (ff_task h2) ! op_no) state"
        unfolding mark_frame_def by blast
      with t show ?thesis by simp
    qed
  qed
  show ?thesis
    unfolding mark_frame_def using eqs props sub new by blast
qed

lemma mark_frame_mark_goal: "mark_frame state h (mark_goal goal_id h)"
  by (simp add: mark_frame_def mark_goal_def)

lemma mark_frame_record_operator:
  "record_operator state unary_op is_preferred h2 = Inr h' \<Longrightarrow> mark_frame state h2 h'"
  by (auto simp: record_operator_def mark_frame_def set_preferred_def split: if_splits)

lemma mark_preconditions_frame_step:
  assumes "\<And>h goal_id h'. mark_preferred_operators_and_relaxed_plan fuel state h goal_id
              = Some (Inr h') \<Longrightarrow> mark_frame state h h'"
  shows "mark_preconditions fuel state ps b h = Some (Inr (h', b')) \<Longrightarrow> mark_frame state h h'"
proof (induction ps arbitrary: b h)
  case Nil
  then show ?case by (simp add: mark_frame_refl)
next
  case (Cons p ps)
  from Cons.prems obtain h1 where
    m: "mark_preferred_operators_and_relaxed_plan fuel state h p = Some (Inr h1)"
    and r: "mark_preconditions fuel state ps
              (if reached_by (propositions h1 p) \<noteq> NO_OP then False else b) h1 = Some (Inr (h', b'))"
    by (auto split: option.splits sum.splits)
  from assms [OF m] Cons.IH [OF r] show ?case by (rule mark_frame_trans)
qed

lemma mark_frame_mark:
  "mark_preferred_operators_and_relaxed_plan fuel state h goal_id = Some (Inr h')
   \<Longrightarrow> mark_frame state h h'"
proof (induction fuel arbitrary: h goal_id h')
  case 0
  then show ?case by simp
next
  case (Suc fuel)
  have pre: "mark_frame state h1 h2"
    if "mark_preconditions fuel state ps b h1 = Some (Inr (h2, b'))" for ps b h1 h2 b'
    using Suc.IH that by (rule mark_preconditions_frame_step)
  from Suc.prems consider
      "h' = h"
    | "h' = mark_goal goal_id h"
    | h2 b where
        "mark_preconditions fuel state
           (precondition (unary_operators h ! nat (reached_by (propositions h goal_id))))
           True (mark_goal goal_id h) = Some (Inr (h2, b))"
        "record_operator state
           (unary_operators h ! nat (reached_by (propositions h goal_id))) b h2 = Inr h'"
    unfolding mark_Suc by (auto split: if_splits option.splits sum.splits)
  then show ?case
  proof cases
    case 1
    then show ?thesis by (simp add: mark_frame_refl)
  next
    case 2
    then show ?thesis by (simp add: mark_frame_mark_goal)
  next
    case 3
    have "mark_frame state h (mark_goal goal_id h)" by (rule mark_frame_mark_goal)
    also have "mark_frame state (mark_goal goal_id h) h2" using 3(1) by (rule pre)
    also have "mark_frame state h2 h'" using 3(2) by (rule mark_frame_record_operator)
    finally show ?thesis .
  qed
qed

lemma mark_frame_mark_preconditions:
  "mark_preconditions fuel state ps b h = Some (Inr (h', b')) \<Longrightarrow> mark_frame state h h'"
  by (rule mark_preconditions_frame_step) (rule mark_frame_mark)

lemma mark_frame_mark_goals:
  "mark_goals fuel state goals h = Some (Inr h') \<Longrightarrow> mark_frame state h h'"
proof (induction goals arbitrary: h)
  case Nil
  then show ?case by (simp add: mark_frame_refl)
next
  case (Cons g goals)
  then show ?case
    by (auto split: option.splits sum.splits dest!: mark_frame_mark intro: mark_frame_trans)
qed

text \<open>
  The facts that are a precondition of some unary operator, and those of them not yet marked:
  every call below the first is on one of them, and it either returns at once or marks one
  more.
\<close>

definition pre_facts :: "FFHeuristic \<Rightarrow> FactPair set" where
  "pre_facts h = set (concat (map precondition (unary_operators h)))"

definition unmarked :: "FFHeuristic \<Rightarrow> FactPair set" where
  "unmarked h = {q \<in> pre_facts h. \<not> marked (propositions h q)}"

lemma finite_unmarked [simp]: "finite (unmarked h)"
  by (simp add: unmarked_def pre_facts_def)

lemma card_unmarked_le:
  "card (unmarked h) \<le> length (concat (map precondition (unary_operators h)))"
proof -
  have "card (unmarked h) \<le> card (pre_facts h)"
    by (rule card_mono) (auto simp: unmarked_def pre_facts_def)
  also have "\<dots> \<le> length (concat (map precondition (unary_operators h)))"
    unfolding pre_facts_def by (rule card_length)
  finally show ?thesis .
qed

lemma unmarked_frame: "mark_frame state h h' \<Longrightarrow> card (unmarked h') \<le> card (unmarked h)"
  by (rule card_mono) (auto simp: unmarked_def pre_facts_def mark_frame_def)

lemma pre_facts_frame: "mark_frame state h h' \<Longrightarrow> pre_facts h' = pre_facts h"
  by (simp add: pre_facts_def mark_frame_def)

lemma unmarked_mark_goal:
  assumes "goal_id \<in> pre_facts h" "\<not> marked (propositions h goal_id)"
  shows "card (unmarked (mark_goal goal_id h)) < card (unmarked h)"
proof (rule psubset_card_mono)
  show "finite (unmarked h)" by simp
  have "goal_id \<in> unmarked h" using assms by (simp add: unmarked_def)
  moreover have "goal_id \<notin> unmarked (mark_goal goal_id h)"
    by (simp add: unmarked_def mark_goal_def)
  moreover have "unmarked (mark_goal goal_id h) \<subseteq> unmarked h"
    by (auto simp: unmarked_def mark_goal_def pre_facts_def)
  ultimately show "unmarked (mark_goal goal_id h) \<subset> unmarked h" by blast
qed

lemma precondition_pre_facts:
  "i < length (unary_operators h) \<Longrightarrow> set (precondition (unary_operators h ! i)) \<subseteq> pre_facts h"
  by (auto simp: pre_facts_def intro!: bexI [of _ "unary_operators h ! i"])

lemma mark_preconditions_returns_step:
  assumes "\<And>h goal_id. goal_id \<in> pre_facts h \<Longrightarrow> card (unmarked h) < bound
              \<Longrightarrow> \<exists>r. mark_preferred_operators_and_relaxed_plan fuel state h goal_id = Some r"
  shows "set ps \<subseteq> pre_facts h \<Longrightarrow> card (unmarked h) < bound
         \<Longrightarrow> \<exists>r. mark_preconditions fuel state ps b h = Some r"
proof (induction ps arbitrary: b h)
  case Nil
  then show ?case by simp
next
  case (Cons p ps)
  from Cons.prems assms [of p h] obtain r where
    r: "mark_preferred_operators_and_relaxed_plan fuel state h p = Some r" by auto
  show ?case
  proof (cases r)
    case (Inl e)
    with r show ?thesis by simp
  next
    case (Inr h1)
    with r have f: "mark_frame state h h1" by (simp add: mark_frame_mark)
    have "set ps \<subseteq> pre_facts h1" "card (unmarked h1) < bound"
      using Cons.prems pre_facts_frame [OF f] unmarked_frame [OF f] by auto
    from Cons.IH [OF this] r Inr show ?thesis by simp
  qed
qed

lemma mark_returns_in_pre_facts:
  "goal_id \<in> pre_facts h \<Longrightarrow> card (unmarked h) < fuel
   \<Longrightarrow> \<exists>r. mark_preferred_operators_and_relaxed_plan fuel state h goal_id = Some r"
proof (induction fuel arbitrary: h goal_id)
  case 0
  then show ?case by simp
next
  case (Suc fuel)
  show ?case
  proof (cases "marked (propositions h goal_id) \<or> reached_by (propositions h goal_id) = NO_OP
      \<or> reached_by (propositions h goal_id) < 0
      \<or> int (length (unary_operators h)) \<le> reached_by (propositions h goal_id)")
    case True
    then show ?thesis unfolding mark_Suc by auto
  next
    case False
    let ?i = "nat (reached_by (propositions h goal_id))"
    let ?h1 = "mark_goal goal_id h"
    have i: "?i < length (unary_operators ?h1)"
      using False by (auto simp: mark_goal_def nat_less_iff)
    have "card (unmarked ?h1) < card (unmarked h)"
      using Suc.prems(1) False by (simp add: unmarked_mark_goal)
    then have u: "card (unmarked ?h1) < fuel" using Suc.prems(2) by simp
    have sub: "set (precondition (unary_operators h ! ?i)) \<subseteq> pre_facts ?h1"
      using precondition_pre_facts [OF i] by (simp add: mark_goal_def)
    have "\<exists>r. mark_preconditions fuel state (precondition (unary_operators h ! ?i)) True ?h1
             = Some r"
      using Suc.IH sub u by (rule mark_preconditions_returns_step)
    then show ?thesis
      unfolding mark_Suc using False by (auto split: sum.splits)
  qed
qed

lemma mark_returns:
  assumes "length (concat (map precondition (unary_operators h))) + 1 < fuel"
  shows "\<exists>r. mark_preferred_operators_and_relaxed_plan fuel state h goal_id = Some r"
proof -
  from assms obtain n where fuel: "fuel = Suc n"
    and n: "length (concat (map precondition (unary_operators h))) < n"
    by (cases fuel) auto
  show ?thesis
  proof (cases "marked (propositions h goal_id) \<or> reached_by (propositions h goal_id) = NO_OP
      \<or> reached_by (propositions h goal_id) < 0
      \<or> int (length (unary_operators h)) \<le> reached_by (propositions h goal_id)")
    case True
    then show ?thesis unfolding fuel mark_Suc by auto
  next
    case False
    let ?i = "nat (reached_by (propositions h goal_id))"
    let ?h1 = "mark_goal goal_id h"
    have i: "?i < length (unary_operators ?h1)"
      using False by (auto simp: mark_goal_def nat_less_iff)
    have "card (unmarked ?h1) \<le> length (concat (map precondition (unary_operators ?h1)))"
      by (rule card_unmarked_le)
    then have u: "card (unmarked ?h1) < n" using n by (simp add: mark_goal_def)
    have sub: "set (precondition (unary_operators h ! ?i)) \<subseteq> pre_facts ?h1"
      using precondition_pre_facts [OF i] by (simp add: mark_goal_def)
    have "\<exists>r. mark_preconditions n state (precondition (unary_operators h ! ?i)) True ?h1
             = Some r"
      using mark_returns_in_pre_facts sub u by (rule mark_preconditions_returns_step)
    then show ?thesis
      unfolding fuel mark_Suc using False by (auto split: sum.splits)
  qed
qed

lemma mark_goals_returns:
  "length (concat (map precondition (unary_operators h))) + 1 < fuel
   \<Longrightarrow> \<exists>r. mark_goals fuel state goals h = Some r"
proof (induction goals arbitrary: h)
  case Nil
  then show ?case by simp
next
  case (Cons g goals)
  from mark_returns [OF Cons.prems, of state g] obtain r where
    r: "mark_preferred_operators_and_relaxed_plan fuel state h g = Some r" by blast
  show ?case
  proof (cases r)
    case (Inl e)
    with r show ?thesis by simp
  next
    case (Inr h1)
    with r have "mark_frame state h h1" by (simp add: mark_frame_mark)
    then have "unary_operators h1 = unary_operators h" by (simp add: mark_frame_def)
    with Cons.IH [of h1] Cons.prems r Inr show ?thesis by simp
  qed
qed

subsection \<open>Termination of the backward chaining\<close>

text \<open>
  Claim C8. \<^verbatim>\<open>mark_preferred_operators_and_relaxed_plan\<close> returns for every proposition
  table, every list of unary operators and every start, whether or not the
  \<^verbatim>\<open>reached_by\<close> links form cycles: a depth of recursion of two more than the number of
  preconditions of all unary operators is always enough, because every call either finds
  its proposition marked and returns, or marks it, and a marked proposition is never
  unmarked.
\<close>

theorem mark_preferred_operators_and_relaxed_plan_terminates:
  "length (concat (map precondition (unary_operators h))) + 1 < fuel \<Longrightarrow>
   \<exists>r. mark_preferred_operators_and_relaxed_plan fuel state h goal_id = Some r"
  by (rule mark_returns)

text \<open>On the table with the cycle, both operators end up in the relaxed plan.\<close>

theorem mark_preferred_operators_and_relaxed_plan_terminates_witness:
  "length (concat (map precondition (unary_operators cyclic_heuristic))) + 1 < 4
   \<and> (\<exists>r. mark_preferred_operators_and_relaxed_plan 4 [0, 0] cyclic_heuristic (1, 1) = Some r)
   \<and> map_option (map_sum id relaxed_plan)
         (mark_preferred_operators_and_relaxed_plan 4 [0, 0] cyclic_heuristic (1, 1))
       = Some (Inr [True, True])"
proof -
  have b: "length (concat (map precondition (unary_operators cyclic_heuristic))) + 1 < 4"
    by (simp add: cyclic_heuristic_def)
  have run: "map_option (map_sum id relaxed_plan)
         (mark_preferred_operators_and_relaxed_plan 4 [0, 0] cyclic_heuristic (1, 1))
       = Some (Inr [True, True])"
    by code_simp
  show ?thesis
    using b run mark_preferred_operators_and_relaxed_plan_terminates [OF b, of "[0, 0]" "(1, 1)"]
    by blast
qed

subsection \<open>Double addition\<close>

text \<open>
  A whole number that is not negative has at most \<open>k\<close> binary digits exactly when it is
  below 2 to the \<open>k\<close>. Rounding leaves a number of at most 53 bits in the range as it is,
  the rounded number is a double, and so is the sum of two doubles.
\<close>

lemma bit_length_le_iff: "0 \<le> n \<Longrightarrow> bit_length n \<le> k \<longleftrightarrow> n < 2 ^ k"
proof (induction k arbitrary: n)
  case 0
  then show ?case by (subst bit_length.simps) auto
next
  case (Suc k)
  show ?case
  proof (cases "n \<le> 0")
    case True
    with Suc.prems have "n = 0" by simp
    then show ?thesis by (subst bit_length.simps) simp
  next
    case False
    then have "0 \<le> n div 2" by simp
    from Suc.IH [OF this] have "bit_length (n div 2) \<le> k \<longleftrightarrow> n div 2 < 2 ^ k" .
    moreover have "n div 2 < 2 ^ k \<longleftrightarrow> n < 2 * 2 ^ k" by linarith
    ultimately show ?thesis using False by (subst bit_length.simps) simp
  qed
qed

lemma round_to_double_exact:
  "bit_length \<bar>m\<bar> \<le> 53 \<Longrightarrow> int (bit_length \<bar>m\<bar>) + e \<le> 1024 \<Longrightarrow> round_to_double m e = Finite m e"
  by (simp add: round_to_double_def Let_def)

lemma is_double_round_to_double: "- 1074 \<le> e \<Longrightarrow> is_double (round_to_double m e)"
proof -
  assume e: "- 1074 \<le> e"
  define a where "a = \<bar>m\<bar>"
  define k where "k = bit_length a - 53"
  define q where "q = a div 2 ^ k"
  have a0: "0 \<le> a" by (simp add: a_def)
  have "bit_length a \<le> 53 + k" by (simp add: k_def)
  then have "a < 2 ^ (53 + k)" using a0 by (simp add: bit_length_le_iff)
  then have "a < 2 ^ 53 * 2 ^ k" by (simp add: power_add)
  moreover have "q * 2 ^ k \<le> a"
  proof -
    have "a = q * 2 ^ k + a mod 2 ^ k" unfolding q_def by (rule div_mult_mod_eq [symmetric])
    moreover have "0 \<le> a mod 2 ^ k" by simp
    ultimately show ?thesis by linarith
  qed
  ultimately have "q * 2 ^ k < 2 ^ 53 * 2 ^ k" by linarith
  then have q53: "q < 2 ^ 53" by simp
  have q0: "0 \<le> q" unfolding q_def using a0 by (simp add: pos_imp_zdiv_nonneg_iff)
  have b1: "bit_length q \<le> 53" using q0 q53 by (simp add: bit_length_le_iff)
  have b2: "bit_length (q + 1) \<le> 53" if "q + 1 \<noteq> 2 ^ 53"
  proof -
    from q53 that have "q + 1 < 2 ^ 53" by simp
    then show ?thesis using q0 by (simp add: bit_length_le_iff)
  qed
  have b3: "bit_length (2 ^ 52 :: int) \<le> 53" by (simp add: bit_length_le_iff)
  show ?thesis
    unfolding round_to_double_def Let_def a_def [symmetric] k_def [symmetric] q_def [symmetric]
    using e q0 b1 b2 b3 by (auto simp: abs_if add.commute [of q 1])
qed

lemma is_double_dadd: "is_double x \<Longrightarrow> is_double y \<Longrightarrow> is_double (dadd x y)"
  by (cases x; cases y) (auto simp: Let_def intro!: is_double_round_to_double)

subsection \<open>The loop over the relaxed plan\<close>

text \<open>
  The weight that \<^verbatim>\<open>op_weights[op_type]\<close> yields for a table: the stored one, and 0.0 for
  a family that has none. The family weight of an operator is the weight of its name up to
  the first space. The operators of the relaxed plan are the numbers whose entry in the
  membership array is set, each once; the relaxed plan of an evaluation is the one the
  backward chaining from the goals leaves.
\<close>

definition weight_of :: "(string \<Rightarrow> double option) \<Rightarrow> string \<Rightarrow> double" where
  "weight_of table op_type = (case table op_type of Some w \<Rightarrow> w | None \<Rightarrow> Finite 0 0)"

definition family_weight :: "FFHeuristic \<Rightarrow> nat \<Rightarrow> double" where
  "family_weight h op_no =
     weight_of (op_weights h) (op_type_of (get_name (get_operators (ff_task h) ! op_no)))"

definition relaxed_plan_ops :: "FFHeuristic \<Rightarrow> nat list" where
  "relaxed_plan_ops h = filter (\<lambda>op_no. relaxed_plan h ! op_no) [0..<length (relaxed_plan h)]"

definition relaxed_plan_after_marking :: "nat \<Rightarrow> FFHeuristic \<Rightarrow> State \<Rightarrow> nat list" where
  "relaxed_plan_after_marking fuel h ancestor_state =
     (let state = convert_ancestor_state ancestor_state;
          h1 = snd (compute_add_and_ff h state)
      in case mark_goals fuel state (goal_propositions h1) h1 of
           Some (Inr h2) \<Rightarrow> relaxed_plan_ops h2
         | _ \<Rightarrow> [])"

text \<open>What the loop leaves as it is; the weight table may gain entries of weight 0.0.\<close>

definition sum_frame :: "FFHeuristic \<Rightarrow> FFHeuristic \<Rightarrow> bool" where
  "sum_frame h h' \<longleftrightarrow>
     ff_task h' = ff_task h \<and> unary_operators h' = unary_operators h
     \<and> goal_propositions h' = goal_propositions h \<and> propositions h' = propositions h
     \<and> preferred_operators h' = preferred_operators h
     \<and> use_learned_weights h' = use_learned_weights h
     \<and> length (relaxed_plan h') = length (relaxed_plan h)
     \<and> weight_of (op_weights h') = weight_of (op_weights h)
     \<and> (\<not> use_learned_weights h \<longrightarrow> op_weights h' = op_weights h)"

lemma weight_of_insert_zero:
  "table op_type = None \<Longrightarrow> weight_of (table(op_type \<mapsto> Finite 0 0)) = weight_of table"
  by (auto simp: weight_of_def fun_eq_iff)

lemma op_weights_at_eq:
  "op_weights_at op_type h = (w, h2) \<Longrightarrow>
   w = weight_of (op_weights h) op_type \<and> h2 = h\<lparr>op_weights := op_weights h2\<rparr>
   \<and> weight_of (op_weights h2) = weight_of (op_weights h)"
  by (auto simp: op_weights_at_def weight_of_insert_zero split: option.splits)
     (simp_all add: weight_of_def)

lemma sum_relaxed_plan_result:
  "sum_relaxed_plan ops (h_ff, adj_h_ff, h) = Inr (h_ff', adj_h_ff', h') \<Longrightarrow> distinct ops \<Longrightarrow>
   set ops \<subseteq> {..<length (relaxed_plan h)} \<Longrightarrow>
   sum_frame h h'
   \<and> (\<forall>i < length (relaxed_plan h). relaxed_plan h' ! i = (relaxed_plan h ! i \<and> i \<notin> set ops))
   \<and> adj_h_ff' = (if use_learned_weights h
        then foldl dadd adj_h_ff (map (family_weight h) (filter (\<lambda>i. relaxed_plan h ! i) ops))
        else adj_h_ff)"
proof (induction ops arbitrary: h_ff adj_h_ff h)
  case Nil
  then show ?case by (simp add: sum_frame_def)
next
  case (Cons op_no ops)
  have op_no: "op_no < length (relaxed_plan h)" "op_no \<notin> set ops" "distinct ops"
    "set ops \<subseteq> {..<length (relaxed_plan h)}"
    using Cons.prems by auto
  show ?case
  proof (cases "relaxed_plan h ! op_no")
    case False
    with Cons.prems have "sum_relaxed_plan ops (h_ff, adj_h_ff, h) = Inr (h_ff', adj_h_ff', h')"
      by simp
    from Cons.IH [OF this op_no(3,4)] False op_no(1) show ?thesis
      by auto
  next
    case True
    let ?h1 = "h\<lparr>relaxed_plan := (relaxed_plan h)[op_no := False]\<rparr>"
    let ?c = "int_wrap (h_ff + int (get_cost (get_operators (ff_task h) ! op_no)))"
    from True Cons.prems(1) have inr: "\<not> length (get_operators (ff_task h)) \<le> op_no"
      by (auto split: if_splits)
    have nth_same: "(relaxed_plan h)[op_no := False] ! i = relaxed_plan h ! i"
      if "i \<in> set ops" for i
    proof -
      from that op_no(2) have "op_no \<noteq> i" by auto
      then show ?thesis by simp
    qed
    have upd: "(relaxed_plan h)[op_no := False] ! i = (relaxed_plan h ! i \<and> i \<noteq> op_no)"
      if "i < length (relaxed_plan h)" for i
      using that by (cases "i = op_no") simp_all
    have same: "filter (\<lambda>i. (relaxed_plan h)[op_no := False] ! i) ops
        = filter (\<lambda>i. relaxed_plan h ! i) ops"
      by (rule filter_cong) (simp_all add: nth_same)
    show ?thesis
    proof (cases "use_learned_weights h")
      case False
      with True inr Cons.prems(1) have
        "sum_relaxed_plan ops (?c, adj_h_ff, ?h1) = Inr (h_ff', adj_h_ff', h')"
        by (simp add: Let_def)
      from Cons.IH [OF this op_no(3)] op_no(4) have
        ih: "sum_frame ?h1 h'"
          "\<forall>i < length (relaxed_plan h). relaxed_plan h' ! i = (relaxed_plan ?h1 ! i \<and> i \<notin> set ops)"
          "adj_h_ff' = adj_h_ff"
        using False by auto
      have "sum_frame h h'" using ih(1) by (simp add: sum_frame_def)
      moreover have "\<forall>i < length (relaxed_plan h).
          relaxed_plan h' ! i = (relaxed_plan h ! i \<and> i \<notin> set (op_no # ops))"
        using ih(2) by (auto simp: upd)
      ultimately show ?thesis
        using ih(3) True False by simp
    next
      case learned: True
      obtain w h2 where at: "op_weights_at
          (op_type_of (get_name (get_operators (ff_task h) ! op_no))) ?h1 = (w, h2)"
        by (cases "op_weights_at (op_type_of (get_name (get_operators (ff_task h) ! op_no))) ?h1")
      note eq = op_weights_at_eq [OF at]
      have w: "w = family_weight h op_no"
        using eq by (simp add: family_weight_def)
      have h2: "h2 = ?h1\<lparr>op_weights := op_weights h2\<rparr>"
        and wt: "weight_of (op_weights h2) = weight_of (op_weights h)"
        using eq by simp_all
      have h2_fields: "relaxed_plan h2 = (relaxed_plan h)[op_no := False]" "ff_task h2 = ff_task h"
        "use_learned_weights h2 = use_learned_weights h"
        by (subst h2, simp)+
      have fw: "family_weight h2 = family_weight h"
        by (rule ext) (simp add: family_weight_def wt h2_fields)
      from True inr learned at Cons.prems(1) have
        "sum_relaxed_plan ops (?c, dadd adj_h_ff w, h2) = Inr (h_ff', adj_h_ff', h')"
        by (simp add: Let_def)
      from Cons.IH [OF this op_no(3)] op_no(4) have
        ih: "sum_frame h2 h'"
          "\<forall>i < length (relaxed_plan h). relaxed_plan h' ! i = (relaxed_plan ?h1 ! i \<and> i \<notin> set ops)"
          "adj_h_ff' = foldl dadd (dadd adj_h_ff w)
             (map (family_weight h) (filter (\<lambda>i. relaxed_plan ?h1 ! i) ops))"
        using learned by (auto simp: h2_fields fw)
      have "sum_frame h h'"
        using ih(1) learned wt by (subst (asm) h2) (simp add: sum_frame_def)
      moreover have "\<forall>i < length (relaxed_plan h).
          relaxed_plan h' ! i = (relaxed_plan h ! i \<and> i \<notin> set (op_no # ops))"
        using ih(2) by (auto simp: upd)
      ultimately show ?thesis
        using ih(3) True learned w by (simp add: same)
    qed
  qed
qed

lemma sum_relaxed_plan_all:
  assumes "sum_relaxed_plan [0..<length (relaxed_plan h)] (h_ff, adj_h_ff, h)
             = Inr (h_ff', adj_h_ff', h')"
  shows "sum_frame h h'"
    and "\<forall>i < length (relaxed_plan h). \<not> relaxed_plan h' ! i"
    and "adj_h_ff' = (if use_learned_weights h
           then foldl dadd adj_h_ff (map (family_weight h) (relaxed_plan_ops h)) else adj_h_ff)"
proof -
  have "distinct [0..<length (relaxed_plan h)]"
    "set [0..<length (relaxed_plan h)] \<subseteq> {..<length (relaxed_plan h)}"
    by auto
  note r = sum_relaxed_plan_result [OF assms this]
  show "sum_frame h h'" using r by blast
  show "\<forall>i < length (relaxed_plan h). \<not> relaxed_plan h' ! i" using r by simp
  show "adj_h_ff' = (if use_learned_weights h
           then foldl dadd adj_h_ff (map (family_weight h) (relaxed_plan_ops h)) else adj_h_ff)"
    using r unfolding relaxed_plan_ops_def by blast
qed

lemma snd_compute_add_and_ff:
  "snd (compute_add_and_ff h state) = h\<lparr>propositions := explore state [] {} (unary_operators h)\<rparr>"
  by (simp add: compute_add_and_ff_def Let_def)

lemma fst_compute_add_and_ff_dead_end:
  "fst (compute_add_and_ff h state) = DEAD_END \<longleftrightarrow>
     (\<exists>goal_id \<in> set (goal_propositions h).
        cost (explore state [] {} (unary_operators h) goal_id) = None)"
  by (simp add: compute_add_and_ff_def Let_def list_ex_iff DEAD_END_def)

lemma compute_heuristic_cases:
  assumes "compute_heuristic fuel h ancestor_state = Some (Inr (v, h'))"
  obtains
    (dead_end) "fst (compute_add_and_ff h (convert_ancestor_state ancestor_state)) = DEAD_END"
      "v = DEAD_END" "h' = snd (compute_add_and_ff h (convert_ancestor_state ancestor_state))"
  | (plan) h2 h_ff adj_h_ff where
      "fst (compute_add_and_ff h (convert_ancestor_state ancestor_state)) \<noteq> DEAD_END"
      "mark_goals fuel (convert_ancestor_state ancestor_state) (goal_propositions h)
         (snd (compute_add_and_ff h (convert_ancestor_state ancestor_state))) = Some (Inr h2)"
      "sum_relaxed_plan [0..<length (relaxed_plan h2)] (0, Finite 0 0, h2)
         = Inr (h_ff, adj_h_ff, h')"
      "if use_learned_weights h then double_to_int (dceil adj_h_ff) = Inr v else v = h_ff"
proof (cases "fst (compute_add_and_ff h (convert_ancestor_state ancestor_state)) = DEAD_END")
  case True
  with assms have "v = DEAD_END"
    "h' = snd (compute_add_and_ff h (convert_ancestor_state ancestor_state))"
    by (auto simp: compute_heuristic_def Let_def split_beta)
  with True show ?thesis by (rule dead_end)
next
  case False
  let ?st = "convert_ancestor_state ancestor_state"
  let ?h1 = "snd (compute_add_and_ff h ?st)"
  have g: "goal_propositions ?h1 = goal_propositions h"
    by (simp add: snd_compute_add_and_ff)
  from assms False obtain h2 where
    m: "mark_goals fuel ?st (goal_propositions h) ?h1 = Some (Inr h2)"
    by (auto simp: compute_heuristic_def Let_def split_beta g split: option.splits sum.splits)
  from assms False m obtain h_ff adj_h_ff h3 where
    s: "sum_relaxed_plan [0..<length (relaxed_plan h2)] (0, Finite 0 0, h2)
          = Inr (h_ff, adj_h_ff, h3)"
    by (auto simp: compute_heuristic_def Let_def split_beta g split: sum.splits)
  from assms False m s have r: "h' = h3"
    "if use_learned_weights h3 then double_to_int (dceil adj_h_ff) = Inr v else v = h_ff"
    by (auto simp: compute_heuristic_def Let_def split_beta g split: if_splits sum.splits)
  have "mark_frame ?st ?h1 h2" using m by (rule mark_frame_mark_goals)
  then have "use_learned_weights h2 = use_learned_weights h"
    by (simp add: mark_frame_def snd_compute_add_and_ff)
  moreover have "sum_frame h2 h3"
    using s by (rule sum_relaxed_plan_all)
  ultimately have "use_learned_weights h3 = use_learned_weights h"
    by (simp add: sum_frame_def)
  with r s have
    "sum_relaxed_plan [0..<length (relaxed_plan h2)] (0, Finite 0 0, h2) = Inr (h_ff, adj_h_ff, h')"
    "if use_learned_weights h then double_to_int (dceil adj_h_ff) = Inr v else v = h_ff"
    by simp_all
  with False m show ?thesis by (rule plan)
qed

text \<open>The same object with another weight table, and the two sums of a loop result.\<close>

definition with_weights :: "(string \<Rightarrow> double option) \<Rightarrow> FFHeuristic \<Rightarrow> FFHeuristic" where
  "with_weights table h = h\<lparr>op_weights := table\<rparr>"

lemma with_weights_fields [simp]:
  "ff_task (with_weights t h) = ff_task h"
  "unary_operators (with_weights t h) = unary_operators h"
  "goal_propositions (with_weights t h) = goal_propositions h"
  "propositions (with_weights t h) = propositions h"
  "relaxed_plan (with_weights t h) = relaxed_plan h"
  "preferred_operators (with_weights t h) = preferred_operators h"
  "use_learned_weights (with_weights t h) = use_learned_weights h"
  "op_weights (with_weights t h) = t"
  "with_weights t (with_weights t' h) = with_weights t h"
  by (simp_all add: with_weights_def)

lemma with_weights_mark_goal:
  "mark_goal goal_id (with_weights t h) = with_weights t (mark_goal goal_id h)"
  by (simp add: mark_goal_def with_weights_def)

lemma with_weights_record_operator:
  "record_operator state unary_op b (with_weights t h)
     = map_sum id (with_weights t) (record_operator state unary_op b h)"
  by (simp add: record_operator_def with_weights_def set_preferred_def)

lemma with_weights_mark_preconditions_step:
  assumes "\<And>h goal_id. mark_preferred_operators_and_relaxed_plan fuel state (with_weights t h) goal_id
      = map_option (map_sum id (with_weights t))
          (mark_preferred_operators_and_relaxed_plan fuel state h goal_id)"
  shows "mark_preconditions fuel state ps b (with_weights t h)
      = map_option (map_sum id (map_prod (with_weights t) id)) (mark_preconditions fuel state ps b h)"
proof (induction ps arbitrary: b h)
  case Nil
  then show ?case by simp
next
  case (Cons p ps)
  show ?case
    by (cases "mark_preferred_operators_and_relaxed_plan fuel state h p")
       (auto simp: assms Cons.IH split: sum.splits)
qed

lemma with_weights_mark:
  "mark_preferred_operators_and_relaxed_plan fuel state (with_weights t h) goal_id
      = map_option (map_sum id (with_weights t))
          (mark_preferred_operators_and_relaxed_plan fuel state h goal_id)"
proof (induction fuel arbitrary: h goal_id)
  case 0
  then show ?case by simp
next
  case (Suc fuel)
  have pre: "mark_preconditions fuel state ps b (with_weights t h)
      = map_option (map_sum id (map_prod (with_weights t) id)) (mark_preconditions fuel state ps b h)"
    for ps b h
    using Suc.IH by (rule with_weights_mark_preconditions_step)
  show ?case
    unfolding mark_Suc
    by (auto simp: with_weights_mark_goal pre with_weights_record_operator id_def
        split: option.splits sum.splits)
qed

lemma with_weights_mark_goals:
  "mark_goals fuel state goals (with_weights t h)
      = map_option (map_sum id (with_weights t)) (mark_goals fuel state goals h)"
proof (induction goals arbitrary: h)
  case Nil
  then show ?case by simp
next
  case (Cons g goals)
  show ?case
    by (cases "mark_preferred_operators_and_relaxed_plan fuel state h g")
       (auto simp: with_weights_mark Cons.IH split: sum.splits)
qed

lemma with_weights_compute_add_and_ff:
  "compute_add_and_ff (with_weights t h) state
     = (fst (compute_add_and_ff h state), with_weights t (snd (compute_add_and_ff h state)))"
  by (simp add: compute_add_and_ff_def Let_def with_weights_def)

definition sums_of :: "error + int \<times> double \<times> FFHeuristic \<Rightarrow> error + int \<times> double" where
  "sums_of r = map_sum id (\<lambda>(h_ff, adj_h_ff, h). (h_ff, adj_h_ff)) r"

lemma op_weights_at_with_weights:
  "op_weights_at op_type (with_weights t h)
     = (weight_of t op_type, with_weights (op_weights (snd (op_weights_at op_type (with_weights t h)))) h)"
  by (auto simp: op_weights_at_def weight_of_def with_weights_def split: option.splits)

lemma with_weights_sum_relaxed_plan:
  "weight_of t = weight_of (op_weights h) \<Longrightarrow>
   sums_of (sum_relaxed_plan ops (h_ff, adj_h_ff, with_weights t h))
     = sums_of (sum_relaxed_plan ops (h_ff, adj_h_ff, h))"
proof (induction ops arbitrary: h_ff adj_h_ff h t)
  case Nil
  then show ?case by (simp add: sums_of_def)
next
  case (Cons op_no ops)
  show ?case
  proof (cases "relaxed_plan h ! op_no \<and> \<not> length (get_operators (ff_task h)) \<le> op_no
                 \<and> use_learned_weights h")
    case False
    have upd: "(with_weights t h)\<lparr>relaxed_plan := xs\<rparr> = with_weights t (h\<lparr>relaxed_plan := xs\<rparr>)"
      for xs by (simp add: with_weights_def)
    have w: "weight_of t = weight_of (op_weights (h\<lparr>relaxed_plan := xs\<rparr>))" for xs
      using Cons.prems by simp
    from False show ?thesis
      by (auto simp: Let_def upd Cons.IH [OF Cons.prems] Cons.IH [OF w] sums_of_def [of "Inl _"])
  next
    case True
    let ?h1 = "h\<lparr>relaxed_plan := (relaxed_plan h)[op_no := False]\<rparr>"
    let ?k = "op_type_of (get_name (get_operators (ff_task h) ! op_no))"
    let ?c = "int_wrap (h_ff + int (get_cost (get_operators (ff_task h) ! op_no)))"
    have upd: "(with_weights t h)\<lparr>relaxed_plan := (relaxed_plan h)[op_no := False]\<rparr>
        = with_weights t ?h1"
      by (simp add: with_weights_def)
    obtain w2 h2 where at2: "op_weights_at ?k ?h1 = (w2, h2)"
      by (cases "op_weights_at ?k ?h1")
    note e2 = op_weights_at_eq [OF at2]
    obtain w1 k1 where at1: "op_weights_at ?k (with_weights t ?h1) = (w1, k1)"
      by (cases "op_weights_at ?k (with_weights t ?h1)")
    note e1 = op_weights_at_eq [OF at1]
    have w: "w1 = w2" using e1 e2 Cons.prems by simp
    have h2: "h2 = with_weights (op_weights h2) ?h1"
      using e2 by (simp add: with_weights_def)
    have "k1 = with_weights (op_weights k1) ?h1"
      using e1 by (simp add: with_weights_def)
    then have k1: "k1 = with_weights (op_weights k1) h2"
      by (subst h2) simp
    have wt: "weight_of (op_weights k1) = weight_of (op_weights h2)"
      using e1 e2 Cons.prems by simp
    have "sums_of (sum_relaxed_plan ops (?c, dadd adj_h_ff w2, with_weights (op_weights k1) h2))
        = sums_of (sum_relaxed_plan ops (?c, dadd adj_h_ff w2, h2))"
      using wt by (rule Cons.IH)
    with k1 have "sums_of (sum_relaxed_plan ops (?c, dadd adj_h_ff w2, k1))
        = sums_of (sum_relaxed_plan ops (?c, dadd adj_h_ff w2, h2))"
      by simp
    then show ?thesis
      using True at1 at2 w by (simp add: Let_def upd)
  qed
qed

lemma value_of_Inr:
  "value_of r = Some (Inr v) \<Longrightarrow> \<exists>h'. r = Some (Inr (v, h'))"
proof -
  assume a: "value_of r = Some (Inr v)"
  then obtain x where r: "r = Some x" "map_sum id fst x = Inr v"
    by (cases r) (auto simp: value_of_def)
  then obtain y where "x = Inr y" "fst y = v" by (cases x) auto
  with r show ?thesis by (cases y) auto
qed

subsection \<open>The membership array after an evaluation\<close>

text \<open>
  Claim C9. The constructor leaves every entry of the relaxed-plan membership array false,
  and when every entry is false before \<^verbatim>\<open>compute_heuristic\<close> is called, every entry is
  false again when it returns a value, on the early return for a dead end (which does not
  touch the array) as well as after the loop that sums the relaxed plan (which clears
  every entry that is set).
\<close>

theorem relaxed_plan_cleared:
  "(FFHeuristic_init task learned operator_names operator_weights = Inr h0 \<longrightarrow>
      (\<forall>b \<in> set (relaxed_plan h0). \<not> b))
   \<and> ((\<forall>b \<in> set (relaxed_plan h). \<not> b) \<longrightarrow>
       compute_heuristic fuel h ancestor_state = Some (Inr (v, h')) \<longrightarrow>
       (\<forall>b \<in> set (relaxed_plan h'). \<not> b))"
proof (intro conjI impI)
  assume "FFHeuristic_init task learned operator_names operator_weights = Inr h0"
  then have "relaxed_plan h0 = replicate (length (get_operators task)) False"
    by (auto simp: FFHeuristic_init_def Let_def split: if_splits sum.splits)
  then show "\<forall>b \<in> set (relaxed_plan h0). \<not> b" by simp
next
  assume clear: "\<forall>b \<in> set (relaxed_plan h). \<not> b"
    and run: "compute_heuristic fuel h ancestor_state = Some (Inr (v, h'))"
  from run show "\<forall>b \<in> set (relaxed_plan h'). \<not> b"
  proof (cases rule: compute_heuristic_cases)
    case dead_end
    then have "relaxed_plan h' = relaxed_plan h" by (simp add: snd_compute_add_and_ff)
    with clear show ?thesis by simp
  next
    case (plan h2 h_ff adj_h_ff)
    from sum_relaxed_plan_all [OF plan(3)] have
      len: "length (relaxed_plan h') = length (relaxed_plan h2)"
      and nth: "\<forall>i < length (relaxed_plan h2). \<not> relaxed_plan h' ! i"
      by (simp_all add: sum_frame_def)
    show ?thesis
      using len nth by (auto simp: in_set_conv_nth)
  qed
qed

text \<open>
  On the task with two operators the evaluation returns 2 and on a dead end of the task with
  the axiom it returns \<^verbatim>\<open>DEAD_END\<close>; the array is all false after both.
\<close>

theorem relaxed_plan_cleared_witness:
  "FFHeuristic_init blocks_task False [] [] = Inr (fresh_heuristic blocks_task False Map.empty)
   \<and> relaxed_plan (fresh_heuristic blocks_task False Map.empty) = [False, False]
   \<and> (\<exists>h'. compute_heuristic 5 (fresh_heuristic blocks_task False Map.empty) [0, 0]
              = Some (Inr (2, h')) \<and> list_all (\<lambda>b. \<not> b) (relaxed_plan h'))
   \<and> (\<exists>h'. compute_heuristic 5 (fresh_heuristic axiom_task False Map.empty) [1, 0, 0]
              = Some (Inr (DEAD_END, h')) \<and> list_all (\<lambda>b. \<not> b) (relaxed_plan h'))"
proof -
  let ?h = "fresh_heuristic blocks_task False Map.empty"
  let ?k = "fresh_heuristic axiom_task False Map.empty"
  have init: "FFHeuristic_init blocks_task False [] [] = Inr ?h"
    by (simp add: FFHeuristic_init_def fresh_heuristic_def)
  have h: "relaxed_plan ?h = [False, False]" and k: "relaxed_plan ?k = [False, False]"
    by (simp_all add: fresh_heuristic_def blocks_task_def axiom_task_def)
  have "value_of (compute_heuristic 5 ?h [0, 0]) = Some (Inr 2)"
    by code_simp
  then obtain h' where run: "compute_heuristic 5 ?h [0, 0] = Some (Inr (2, h'))"
    using value_of_Inr by blast
  have "value_of (compute_heuristic 5 ?k [1, 0, 0]) = Some (Inr DEAD_END)"
    by code_simp
  then obtain k' where dead: "compute_heuristic 5 ?k [1, 0, 0] = Some (Inr (DEAD_END, k'))"
    using value_of_Inr by blast
  have "\<forall>b \<in> set (relaxed_plan h'). \<not> b"
    using relaxed_plan_cleared [of blocks_task False "[]" "[]" ?h ?h 5 "[0, 0]" 2 h'] h run
    by auto
  moreover have "\<forall>b \<in> set (relaxed_plan k'). \<not> b"
    using relaxed_plan_cleared [of blocks_task False "[]" "[]" ?h ?k 5 "[1, 0, 0]" DEAD_END k']
      k dead
    by auto
  ultimately show ?thesis
    using init h run dead by (auto simp: list_all_iff)
qed

subsection \<open>A family without a weight\<close>

text \<open>
  Claim C2, as the source has it. A family that has no entry in the weight table does not
  make the evaluation fail: whatever the evaluation returns for a table in which a family
  is missing, a value or a stop for another cause, is what it returns for the same table
  with the weight 0.0 entered for that family.
\<close>

theorem missing_weight_counts_as_zero:
  "op_weights h op_type = None \<Longrightarrow>
   value_of (compute_heuristic fuel (h\<lparr>op_weights := (op_weights h)(op_type \<mapsto> Finite 0 0)\<rparr>) ancestor_state)
     = value_of (compute_heuristic fuel h ancestor_state)"
proof -
  assume none: "op_weights h op_type = None"
  let ?t = "(op_weights h)(op_type \<mapsto> Finite 0 0)"
  let ?st = "convert_ancestor_state ancestor_state"
  let ?h1 = "snd (compute_add_and_ff h ?st)"
  have t: "weight_of ?t = weight_of (op_weights h)"
    using none by (rule weight_of_insert_zero)
  have k: "h\<lparr>op_weights := ?t\<rparr> = with_weights ?t h" by (simp add: with_weights_def)
  have g: "goal_propositions ?h1 = goal_propositions h" "use_learned_weights ?h1 = use_learned_weights h"
    by (simp_all add: snd_compute_add_and_ff)
  show ?thesis
  proof (cases "fst (compute_add_and_ff h ?st) = DEAD_END")
    case True
    then show ?thesis
      by (simp add: k compute_heuristic_def Let_def split_beta with_weights_compute_add_and_ff
          value_of_def)
  next
    case False
    show ?thesis
    proof (cases "mark_goals fuel ?st (goal_propositions h) ?h1")
      case None
      with False show ?thesis
        by (simp add: k compute_heuristic_def Let_def split_beta with_weights_compute_add_and_ff
            with_weights_mark_goals g value_of_def)
    next
      case (Some r)
      show ?thesis
      proof (cases r)
        case (Inl e)
        with Some False show ?thesis
          by (simp add: k compute_heuristic_def Let_def split_beta with_weights_compute_add_and_ff
              with_weights_mark_goals g value_of_def)
      next
        case (Inr h2)
        have f: "mark_frame ?st ?h1 h2" using Some Inr by (simp add: mark_frame_mark_goals)
        then have "op_weights h2 = op_weights h" "use_learned_weights h2 = use_learned_weights h"
          by (simp_all add: mark_frame_def snd_compute_add_and_ff)
        with t have t2: "weight_of ?t = weight_of (op_weights h2)" by simp
        let ?n = "[0..<length (relaxed_plan h2)]"
        note s = with_weights_sum_relaxed_plan [OF t2, of ?n 0 "Finite 0 0"]
        have fr: "use_learned_weights h3 = use_learned_weights h"
          if "sum_relaxed_plan ?n (0, Finite 0 0, k2) = Inr (a, b, h3)" "k2 = h2 \<or> k2 = with_weights ?t h2"
          for a b h3 k2
        proof -
          have "length (relaxed_plan k2) = length (relaxed_plan h2)"
            "use_learned_weights k2 = use_learned_weights h"
            using that(2) \<open>use_learned_weights h2 = use_learned_weights h\<close> by auto
          with sum_relaxed_plan_all(1) [of k2 0 "Finite 0 0" a b h3] that(1) show ?thesis
            by (simp add: sum_frame_def)
        qed
        show ?thesis
        proof (cases "sum_relaxed_plan ?n (0, Finite 0 0, h2)")
          case l: (Inl e)
          with s obtain e' where "sum_relaxed_plan ?n (0, Finite 0 0, with_weights ?t h2) = Inl e'" "e' = e"
            by (cases "sum_relaxed_plan ?n (0, Finite 0 0, with_weights ?t h2)") (auto simp: sums_of_def)
          with l Some Inr False show ?thesis
            by (simp add: k compute_heuristic_def Let_def split_beta with_weights_compute_add_and_ff
                with_weights_mark_goals g value_of_def)
        next
          case r: (Inr x)
          obtain a b h3 where x: "x = (a, b, h3)" by (cases x)
          with s r obtain k3 where
            r': "sum_relaxed_plan ?n (0, Finite 0 0, with_weights ?t h2) = Inr (a, b, k3)"
            by (cases "sum_relaxed_plan ?n (0, Finite 0 0, with_weights ?t h2)") (auto simp: sums_of_def)
          have "use_learned_weights h3 = use_learned_weights h"
            "use_learned_weights k3 = use_learned_weights h"
            using fr [of h2 a b h3] fr [of "with_weights ?t h2" a b k3] r r' x by auto
          with r r' x Some Inr False show ?thesis
            by (simp add: k compute_heuristic_def Let_def split_beta with_weights_compute_add_and_ff
                with_weights_mark_goals g value_of_def split: sum.splits)
        qed
      qed
    qed
  qed
qed

text \<open>
  On the task with two operators and the weight 1.5 for pick-up alone, the evaluation
  returns 2 with and without the weight 0.0 for put-down.
\<close>

theorem missing_weight_counts_as_zero_witness:
  "op_weights (fresh_heuristic blocks_task True [''pick-up'' \<mapsto> Finite 3 (- 1)]) ''put-down'' = None
   \<and> value_of (compute_heuristic 5
        (fresh_heuristic blocks_task True [''pick-up'' \<mapsto> Finite 3 (- 1), ''put-down'' \<mapsto> Finite 0 0]) [0, 0])
      = Some (Inr 2)
   \<and> value_of (compute_heuristic 5
        ((fresh_heuristic blocks_task True [''pick-up'' \<mapsto> Finite 3 (- 1)])
           \<lparr>op_weights := (op_weights (fresh_heuristic blocks_task True [''pick-up'' \<mapsto> Finite 3 (- 1)]))
              (''put-down'' \<mapsto> Finite 0 0)\<rparr>) [0, 0])
      = value_of (compute_heuristic 5
          (fresh_heuristic blocks_task True [''pick-up'' \<mapsto> Finite 3 (- 1)]) [0, 0])"
proof -
  let ?h = "fresh_heuristic blocks_task True [''pick-up'' \<mapsto> Finite 3 (- 1)]"
  have none: "op_weights ?h ''put-down'' = None"
    by (simp add: fresh_heuristic_def)
  have run: "value_of (compute_heuristic 5
        (fresh_heuristic blocks_task True [''pick-up'' \<mapsto> Finite 3 (- 1), ''put-down'' \<mapsto> Finite 0 0]) [0, 0])
      = Some (Inr 2)"
    by code_simp
  show ?thesis
    using none run missing_weight_counts_as_zero [OF none, of 5 "[0, 0]"] by blast
qed

text \<open>
  The claim as it was stated has the evaluation fail. With the table that the constructor
  builds from the one name pick-up and the one weight 1.5, which is 3 times 2 to the -1, the
  relaxed plan holds the operator put-down a, whose family put-down has no entry, and the
  evaluation returns 2, the ceiling of 1.5 + 0.0.
\<close>

theorem missing_weight_counterexample:
  "FFHeuristic_init blocks_task True [''pick-up''] [Finite 3 (- 1)]
     = Inr (fresh_heuristic blocks_task True [''pick-up'' \<mapsto> Finite 3 (- 1)])
   \<and> op_weights (fresh_heuristic blocks_task True [''pick-up'' \<mapsto> Finite 3 (- 1)]) ''put-down'' = None
   \<and> relaxed_plan_after_marking 5 (fresh_heuristic blocks_task True [''pick-up'' \<mapsto> Finite 3 (- 1)]) [0, 0]
       = [0, 1]
   \<and> op_type_of (get_name (get_operators blocks_task ! 1)) = ''put-down''
   \<and> value_of (compute_heuristic 5 (fresh_heuristic blocks_task True [''pick-up'' \<mapsto> Finite 3 (- 1)]) [0, 0])
       = Some (Inr 2)"
proof -
  have init: "FFHeuristic_init blocks_task True [''pick-up''] [Finite 3 (- 1)]
     = Inr (fresh_heuristic blocks_task True [''pick-up'' \<mapsto> Finite 3 (- 1)])"
    by (simp add: FFHeuristic_init_def fresh_heuristic_def)
  have run: "op_weights (fresh_heuristic blocks_task True [''pick-up'' \<mapsto> Finite 3 (- 1)]) ''put-down'' = None
   \<and> relaxed_plan_after_marking 5 (fresh_heuristic blocks_task True [''pick-up'' \<mapsto> Finite 3 (- 1)]) [0, 0]
       = [0, 1]
   \<and> op_type_of (get_name (get_operators blocks_task ! 1)) = ''put-down''
   \<and> value_of (compute_heuristic 5 (fresh_heuristic blocks_task True [''pick-up'' \<mapsto> Finite 3 (- 1)]) [0, 0])
       = Some (Inr 2)"
    by code_simp
  show ?thesis using init run by blast
qed

section \<open>Properties of the exploration\<close>

text \<open>
  A fact is done when it has been reached and has left the queue. For a unary operator, the
  preconditions it still waits for are those not done; while the fact \<open>f\<close> taken from the
  queue is handed to the unary operators in turn, \<open>f\<close> counts as waited for by those from
  number \<open>k\<close> on, which have not seen it yet.
\<close>

definition popped :: "ExplorationState \<Rightarrow> FactPair \<Rightarrow> bool" where
  "popped s q \<longleftrightarrow> cost (nodes s q) \<noteq> None \<and> q \<notin> snd ` set (queue s)"

definition waiting :: "UnaryOperator list \<Rightarrow> FactPair option \<Rightarrow> nat \<Rightarrow> ExplorationState \<Rightarrow> nat \<Rightarrow> FactPair set" where
  "waiting rules current k s i =
     {q \<in> set (precondition (rules ! i)). \<not> popped s q \<or> (current = Some q \<and> k \<le> i)}"

text \<open>
  The invariant of a run: the queue holds reached facts, each once; a fact with an achiever
  was reached by a unary operator whose counter is at zero; the counter of a unary operator
  is at least the number of preconditions it waits for; and a reached fact without an
  achiever is a fact of the seed state.
\<close>

definition exploration_inv ::
  "UnaryOperator list \<Rightarrow> FactPair set \<Rightarrow> FactPair option \<Rightarrow> nat \<Rightarrow> ExplorationState \<Rightarrow> bool" where
  "exploration_inv rules seeds current k s \<longleftrightarrow>
     length (counters s) = length rules
     \<and> distinct (map snd (queue s))
     \<and> (\<forall>q \<in> snd ` set (queue s). cost (nodes s q) \<noteq> None)
     \<and> (\<forall>f. current = Some f \<longrightarrow> popped s f)
     \<and> (\<forall>p. reached_by (nodes s p) \<noteq> NO_OP \<longrightarrow>
           (\<exists>i < length rules. reached_by (nodes s p) = int i \<and> fst (counters s ! i) = 0))
     \<and> (\<forall>i < length rules. card (waiting rules current k s i) \<le> fst (counters s ! i))
     \<and> (\<forall>p. cost (nodes s p) \<noteq> None \<and> reached_by (nodes s p) = NO_OP \<longrightarrow> p \<in> seeds)"

lemma exploration_invD:
  assumes "exploration_inv rules seeds current k s"
  shows "length (counters s) = length rules"
    and "distinct (map snd (queue s))"
    and "\<And>q. q \<in> snd ` set (queue s) \<Longrightarrow> cost (nodes s q) \<noteq> None"
    and "\<And>f. current = Some f \<Longrightarrow> popped s f"
    and "\<And>p. reached_by (nodes s p) \<noteq> NO_OP \<Longrightarrow>
           \<exists>i < length rules. reached_by (nodes s p) = int i \<and> fst (counters s ! i) = 0"
    and "\<And>i. i < length rules \<Longrightarrow> card (waiting rules current k s i) \<le> fst (counters s ! i)"
    and "\<And>p. cost (nodes s p) \<noteq> None \<Longrightarrow> reached_by (nodes s p) = NO_OP \<Longrightarrow> p \<in> seeds"
  using assms unfolding exploration_inv_def by blast+

lemma exploration_invI:
  assumes "length (counters s) = length rules"
    and "distinct (map snd (queue s))"
    and "\<And>q. q \<in> snd ` set (queue s) \<Longrightarrow> cost (nodes s q) \<noteq> None"
    and "\<And>f. current = Some f \<Longrightarrow> popped s f"
    and "\<And>p. reached_by (nodes s p) \<noteq> NO_OP \<Longrightarrow>
           \<exists>i < length rules. reached_by (nodes s p) = int i \<and> fst (counters s ! i) = 0"
    and "\<And>i. i < length rules \<Longrightarrow> card (waiting rules current k s i) \<le> fst (counters s ! i)"
    and "\<And>p. cost (nodes s p) \<noteq> None \<Longrightarrow> reached_by (nodes s p) = NO_OP \<Longrightarrow> p \<in> seeds"
  shows "exploration_inv rules seeds current k s"
  using assms unfolding exploration_inv_def by blast

lemma finite_waiting [simp]: "finite (waiting rules current k s i)"
  by (simp add: waiting_def)

lemma popped_reach:
  "cost (nodes s f) = None \<Longrightarrow> popped (reach f c by s) q = popped s q"
  by (auto simp: popped_def reach_def)

lemma waiting_reach:
  "cost (nodes s f) = None \<Longrightarrow> waiting rules current k (reach f c by s) i = waiting rules current k s i"
  by (simp add: waiting_def popped_reach)

lemma exploration_inv_reach:
  assumes inv: "exploration_inv rules seeds current k s"
    and unreached: "cost (nodes s f) = None"
    and achiever: "(by = NO_OP \<and> f \<in> seeds) \<or> (\<exists>i < length rules. by = int i \<and> fst (counters s ! i) = 0)"
  shows "exploration_inv rules seeds current k (reach f c by s)"
proof (rule exploration_invI)
  let ?s = "reach f c by s"
  note D = exploration_invD [OF inv]
  have nq: "f \<notin> snd ` set (queue s)"
    using D(3) unreached by blast
  have c: "counters ?s = counters s" by (simp add: reach_def)
  show "length (counters ?s) = length rules"
    using D(1) by (simp add: c)
  show "distinct (map snd (queue ?s))"
    using D(2) nq by (simp add: reach_def)
  show "cost (nodes ?s q) \<noteq> None" if "q \<in> snd ` set (queue ?s)" for q
  proof (cases "q = f")
    case True
    then show ?thesis by (simp add: reach_def)
  next
    case False
    with that have "q \<in> snd ` set (queue s)" "nodes ?s q = nodes s q"
      by (auto simp: reach_def)
    with D(3) show ?thesis by simp
  qed
  show "popped ?s g" if "current = Some g" for g
    using D(4) [OF that] unreached by (simp add: popped_reach)
  show "\<exists>i < length rules. reached_by (nodes ?s p) = int i \<and> fst (counters ?s ! i) = 0"
    if r: "reached_by (nodes ?s p) \<noteq> NO_OP" for p
  proof (cases "p = f")
    case True
    with r have "by \<noteq> NO_OP" "reached_by (nodes ?s p) = by" by (simp_all add: reach_def)
    with achiever show ?thesis by (auto simp: c)
  next
    case False
    then have "nodes ?s p = nodes s p" by (simp add: reach_def)
    with r D(5) [of p] show ?thesis by (simp add: c)
  qed
  show "card (waiting rules current k ?s i) \<le> fst (counters ?s ! i)" if "i < length rules" for i
    using D(6) [OF that] unreached by (simp add: waiting_reach c)
  show "p \<in> seeds" if r: "cost (nodes ?s p) \<noteq> None" "reached_by (nodes ?s p) = NO_OP" for p
  proof (cases "p = f")
    case True
    with r have "by = NO_OP" by (simp add: reach_def)
    with achiever True show ?thesis by (auto simp: NO_OP_def)
  next
    case False
    then have "nodes ?s p = nodes s p" by (simp add: reach_def)
    with r D(7) [of p] show ?thesis by simp
  qed
qed

lemma exploration_inv_fire:
  assumes "exploration_inv rules seeds current k s" "i < length rules" "fst (counters s ! i) = 0"
  shows "exploration_inv rules seeds current k (fire xp xo rules i s)"
proof (cases "rule_enabled xp xo (rules ! i) \<and> cost (nodes s (effect (rules ! i))) = None")
  case True
  then have "fire xp xo rules i s
      = reach (effect (rules ! i)) (snd (counters s ! i) + base_cost (rules ! i)) (int i) s"
    by (simp add: fire_def Let_def)
  moreover have "exploration_inv rules seeds current k
      (reach (effect (rules ! i)) (snd (counters s ! i) + base_cost (rules ! i)) (int i) s)"
    using assms True by (intro exploration_inv_reach) auto
  ultimately show ?thesis by simp
next
  case False
  then have "fire xp xo rules i s = s" by (auto simp: fire_def Let_def)
  with assms show ?thesis by simp
qed

lemma waiting_counters [simp]:
  "waiting rules current k (s\<lparr>counters := cs\<rparr>) i = waiting rules current k s i"
  by (simp add: waiting_def popped_def)

lemma waiting_Suc_subset: "waiting rules current (Suc k) s i \<subseteq> waiting rules current k s i"
  by (auto simp: waiting_def)

lemma waiting_Suc_self:
  assumes "popped s f" "f \<in> set (precondition (rules ! k))"
  shows "card (waiting rules (Some f) (Suc k) s k) \<le> card (waiting rules (Some f) k s k) - 1"
proof -
  have "f \<in> waiting rules (Some f) k s k" using assms(2) by (simp add: waiting_def)
  moreover have "waiting rules (Some f) (Suc k) s k \<subseteq> waiting rules (Some f) k s k - {f}"
    using assms(1) by (auto simp: waiting_def)
  then have "card (waiting rules (Some f) (Suc k) s k)
      \<le> card (waiting rules (Some f) k s k - {f})"
    by (intro card_mono) simp_all
  ultimately show ?thesis by simp
qed

lemma exploration_inv_satisfy:
  assumes inv: "exploration_inv rules seeds (Some f) k s" and k: "k < length rules"
  shows "exploration_inv rules seeds (Some f) (Suc k) (satisfy xp xo rules f c k s)"
proof -
  note D = exploration_invD [OF inv]
  have mono: "card (waiting rules (Some f) (Suc k) s i) \<le> card (waiting rules (Some f) k s i)" for i
    by (intro card_mono waiting_Suc_subset) simp
  show ?thesis
  proof (cases "f \<in> set (precondition (rules ! k))")
    case False
    have "exploration_inv rules seeds (Some f) (Suc k) s"
    proof (rule exploration_invI)
      show "card (waiting rules (Some f) (Suc k) s i) \<le> fst (counters s ! i)"
        if "i < length rules" for i
        using mono [of i] D(6) [OF that] by simp
    qed (use D in auto)
    with False show ?thesis by (simp add: satisfy_def)
  next
    case True
    let ?u = "fst (counters s ! k) - 1"
    let ?s1 = "s\<lparr>counters := (counters s)[k := (?u, snd (counters s ! k) + c)]\<rparr>"
    have kc: "k < length (counters s)" using D(1) k by simp
    have s1: "exploration_inv rules seeds (Some f) (Suc k) ?s1"
    proof (rule exploration_invI)
      show "length (counters ?s1) = length rules" using D(1) by simp
      show "distinct (map snd (queue ?s1))" using D(2) by simp
      show "cost (nodes ?s1 q) \<noteq> None" if "q \<in> snd ` set (queue ?s1)" for q
        using D(3) [of q] that by simp
      show "popped ?s1 g" if "Some f = Some g" for g
        using D(4) [OF that] by (simp add: popped_def)
      show "\<exists>i < length rules. reached_by (nodes ?s1 p) = int i \<and> fst (counters ?s1 ! i) = 0"
        if "reached_by (nodes ?s1 p) \<noteq> NO_OP" for p
      proof -
        from that D(5) [of p] obtain i where
          i: "i < length rules" "reached_by (nodes s p) = int i" "fst (counters s ! i) = 0"
          by auto
        have "fst (counters ?s1 ! i) = 0"
          using i(3) kc by (cases "i = k") simp_all
        with i show ?thesis by auto
      qed
      show "card (waiting rules (Some f) (Suc k) ?s1 i) \<le> fst (counters ?s1 ! i)"
        if i: "i < length rules" for i
      proof (cases "i = k")
        case True
        have "card (waiting rules (Some f) (Suc k) s k) \<le> card (waiting rules (Some f) k s k) - 1"
          using D(4) \<open>f \<in> set (precondition (rules ! k))\<close> by (intro waiting_Suc_self) simp_all
        also have "\<dots> \<le> ?u" using D(6) [OF k] by simp
        finally show ?thesis using True kc by simp
      next
        case False
        then show ?thesis using mono [of i] D(6) [OF i] by simp
      qed
      show "p \<in> seeds" if "cost (nodes ?s1 p) \<noteq> None" "reached_by (nodes ?s1 p) = NO_OP" for p
        using D(7) [of p] that by simp
    qed
    show ?thesis
    proof (cases "?u = 0")
      case u: True
      have "fst (counters ?s1 ! k) = 0" using u kc by simp
      with s1 k have "exploration_inv rules seeds (Some f) (Suc k) (fire xp xo rules k ?s1)"
        by (rule exploration_inv_fire)
      with True u show ?thesis by (simp add: satisfy_def Let_def)
    next
      case False
      with True s1 show ?thesis by (simp add: satisfy_def Let_def)
    qed
  qed
qed

lemma exploration_inv_fold_satisfy:
  "exploration_inv rules seeds (Some f) 0 s \<Longrightarrow> k \<le> length rules \<Longrightarrow>
   exploration_inv rules seeds (Some f) k (fold (satisfy xp xo rules f c) [0..<k] s)"
proof (induction k)
  case 0
  then show ?case by simp
next
  case (Suc k)
  then have "exploration_inv rules seeds (Some f) k (fold (satisfy xp xo rules f c) [0..<k] s)"
    and "k < length rules" by simp_all
  then show ?case by (simp add: exploration_inv_satisfy)
qed

lemma exploration_inv_done:
  assumes "exploration_inv rules seeds (Some f) (length rules) s"
  shows "exploration_inv rules seeds None 0 s"
proof (rule exploration_invI)
  note D = exploration_invD [OF assms]
  show "card (waiting rules None 0 s i) \<le> fst (counters s ! i)" if "i < length rules" for i
  proof -
    have "waiting rules None 0 s i = waiting rules (Some f) (length rules) s i"
      using that by (auto simp: waiting_def)
    with D(6) [OF that] show ?thesis by simp
  qed
qed (use exploration_invD [OF assms] in auto)

lemma distinct_map_remove1: "distinct (map g xs) \<Longrightarrow> distinct (map g (remove1 x xs))"
proof (induction xs)
  case Nil
  then show ?case by simp
next
  case (Cons y xs)
  have "g ` set (remove1 x xs) \<subseteq> g ` set xs" using set_remove1_subset [of x xs] by blast
  with Cons show ?case by auto
qed

lemma image_remove1:
  "distinct (map g xs) \<Longrightarrow> x \<in> set xs \<Longrightarrow> g ` set (remove1 x xs) = g ` set xs - {g x}"
proof -
  assume d: "distinct (map g xs)" and x: "x \<in> set xs"
  then have dx: "distinct xs" by (simp add: distinct_map)
  have inj: "inj_on g (set xs)" using d by (simp add: distinct_map)
  have "set (remove1 x xs) = set xs - {x}" using dx by simp
  then have "g ` set (remove1 x xs) = g ` (set xs - {x})" by simp
  also have "\<dots> = g ` set xs - g ` {x}"
    using inj x by (intro inj_on_image_set_diff [of g "set xs"]) auto
  finally show ?thesis by simp
qed

lemma exploration_inv_pop:
  assumes inv: "exploration_inv rules seeds None 0 s" and entry: "entry \<in> set (queue s)"
  shows "exploration_inv rules seeds (Some (snd entry)) 0 (s\<lparr>queue := remove1 entry (queue s)\<rparr>)"
proof (rule exploration_invI)
  let ?s1 = "s\<lparr>queue := remove1 entry (queue s)\<rparr>"
  let ?f = "snd entry"
  note D = exploration_invD [OF inv]
  have q1: "snd ` set (queue ?s1) = snd ` set (queue s) - {?f}"
    using image_remove1 [OF D(2) entry] by simp
  have fq: "?f \<in> snd ` set (queue s)" using entry by simp
  have pf: "popped ?s1 ?f" using D(3) [OF fq] q1 by (simp add: popped_def)
  have pq: "popped ?s1 q = popped s q" if "q \<noteq> ?f" for q
    using that q1 by (auto simp: popped_def)
  have nf: "\<not> popped s ?f" using fq by (simp add: popped_def)
  show "length (counters ?s1) = length rules" using D(1) by simp
  show "distinct (map snd (queue ?s1))" using D(2) by (simp add: distinct_map_remove1)
  show "cost (nodes ?s1 q) \<noteq> None" if "q \<in> snd ` set (queue ?s1)" for q
    using D(3) [of q] that q1 by auto
  show "popped ?s1 g" if "Some ?f = Some g" for g
    using that pf by simp
  show "\<exists>i < length rules. reached_by (nodes ?s1 p) = int i \<and> fst (counters ?s1 ! i) = 0"
    if "reached_by (nodes ?s1 p) \<noteq> NO_OP" for p
    using D(5) [of p] that by simp
  show "card (waiting rules (Some ?f) 0 ?s1 i) \<le> fst (counters ?s1 ! i)" if "i < length rules" for i
  proof -
    have "waiting rules (Some ?f) 0 ?s1 i = waiting rules None 0 s i"
    proof (rule set_eqI)
      fix q
      show "q \<in> waiting rules (Some ?f) 0 ?s1 i \<longleftrightarrow> q \<in> waiting rules None 0 s i"
      proof (cases "q = ?f")
        case True
        then show ?thesis using nf by (simp add: waiting_def)
      next
        case False
        then show ?thesis using pq [OF False] by (simp add: waiting_def)
      qed
    qed
    with D(6) [OF that] show ?thesis by simp
  qed
  show "p \<in> seeds" if "cost (nodes ?s1 p) \<noteq> None" "reached_by (nodes ?s1 p) = NO_OP" for p
    using D(7) [of p] that by simp
qed

lemma exploration_inv_relaxed_exploration:
  "exploration_inv rules seeds None 0 s \<Longrightarrow>
   exploration_inv rules seeds None 0 (relaxed_exploration xp xo rules s)"
proof (induction xp xo rules s rule: relaxed_exploration.induct)
  case (1 xp xo rules s)
  show ?case
  proof (cases "queue s = []")
    case True
    with "1.prems" show ?thesis by (subst relaxed_exploration.simps) simp
  next
    case False
    let ?top = "arg_min_list fst (queue s)"
    let ?s1 = "s\<lparr>queue := remove1 ?top (queue s)\<rparr>"
    let ?s2 = "fold (satisfy xp xo rules (snd ?top) (fst ?top)) [0..<length rules] ?s1"
    have "?top \<in> set (queue s)" using False by (simp add: arg_min_list_in)
    with "1.prems" have "exploration_inv rules seeds (Some (snd ?top)) 0 ?s1"
      by (rule exploration_inv_pop)
    then have "exploration_inv rules seeds (Some (snd ?top)) (length rules) ?s2"
      by (rule exploration_inv_fold_satisfy) simp
    then have "exploration_inv rules seeds None 0 ?s2"
      by (rule exploration_inv_done)
    with False have "exploration_inv rules seeds None 0 (relaxed_exploration xp xo rules ?s2)"
      by (intro "1.IH") simp_all
    with False show ?thesis by (subst relaxed_exploration.simps) (simp add: Let_def)
  qed
qed

lemma exploration_inv_start:
  "exploration_inv rules seeds None 0
     \<lparr>nodes = (\<lambda>f. \<lparr>cost = None, reached_by = NO_OP, marked = False\<rparr>),
      counters = map (\<lambda>rule. (length (precondition rule), 0)) rules,
      queue = []\<rparr>"
proof (rule exploration_invI)
  let ?s0 = "\<lparr>nodes = (\<lambda>f. \<lparr>cost = None, reached_by = NO_OP, marked = False\<rparr>),
      counters = map (\<lambda>rule. (length (precondition rule), 0)) rules,
      queue = []\<rparr>"
  show "card (waiting rules None 0 ?s0 i) \<le> fst (counters ?s0 ! i)" if "i < length rules" for i
  proof -
    have "card (waiting rules None 0 ?s0 i) \<le> card (set (precondition (rules ! i)))"
      by (intro card_mono) (auto simp: waiting_def)
    also have "\<dots> \<le> length (precondition (rules ! i))" by (rule card_length)
    finally show ?thesis using that by simp
  qed
qed simp_all

lemma exploration_inv_seed:
  "exploration_inv rules seeds None 0 s \<Longrightarrow> distinct fs \<Longrightarrow> set fs \<subseteq> seeds \<Longrightarrow>
   \<forall>f \<in> set fs. cost (nodes s f) = None \<Longrightarrow>
   exploration_inv rules seeds None 0 (fold (seed xp) fs s)"
proof (induction fs arbitrary: s)
  case Nil
  then show ?case by simp
next
  case (Cons f fs)
  let ?s1 = "seed xp f s"
  have inv: "exploration_inv rules seeds None 0 ?s1"
    using Cons.prems by (auto simp: seed_def intro!: exploration_inv_reach)
  have "\<forall>g \<in> set fs. cost (nodes ?s1 g) = None"
    using Cons.prems by (auto simp: seed_def reach_def)
  with inv Cons.prems have "exploration_inv rules seeds None 0 (fold (seed xp) fs ?s1)"
    by (intro Cons.IH) auto
  then show ?case by simp
qed

lemma exploration_inv_fire_all:
  "exploration_inv rules seeds None 0 s \<Longrightarrow> k \<le> length rules \<Longrightarrow>
   exploration_inv rules seeds None 0
     (fold (\<lambda>i s. if fst (counters s ! i) = 0 then fire xp xo rules i s else s) [0..<k] s)"
proof (induction k)
  case 0
  then show ?case by simp
next
  case (Suc k)
  then have "exploration_inv rules seeds None 0
     (fold (\<lambda>i s. if fst (counters s ! i) = 0 then fire xp xo rules i s else s) [0..<k] s)"
    and "k < length rules" by simp_all
  then show ?case by (simp add: exploration_inv_fire)
qed

lemma exploration_inv_explore:
  "exploration_inv rules (set (state_facts state)) None 0
     (relaxed_exploration xp xo rules (setup_exploration_queue state xp xo rules))"
proof -
  let ?s0 = "\<lparr>nodes = (\<lambda>f. \<lparr>cost = None, reached_by = NO_OP, marked = False\<rparr>),
      counters = map (\<lambda>rule. (length (precondition rule), 0)) rules,
      queue = []\<rparr>"
  have "exploration_inv rules (set (state_facts state)) None 0
      (fold (seed xp) (state_facts state) ?s0)"
    by (intro exploration_inv_seed exploration_inv_start)
       (simp_all add: state_facts_def distinct_enumerate)
  then have "exploration_inv rules (set (state_facts state)) None 0
      (setup_exploration_queue state xp xo rules)"
    unfolding setup_exploration_queue_def Let_def by (rule exploration_inv_fire_all) simp
  then show ?thesis by (rule exploration_inv_relaxed_exploration)
qed

text \<open>
  What the heuristic uses of a finished run: the achiever of a fact is a unary operator all
  of whose preconditions were reached, and a reached fact without an achiever is true in the
  seed state.
\<close>

lemma explore_reached_by:
  assumes "reached_by (explore state xp xo rules p) \<noteq> NO_OP"
  shows "\<exists>i < length rules. reached_by (explore state xp xo rules p) = int i
           \<and> (\<forall>q \<in> set (precondition (rules ! i)). cost (explore state xp xo rules q) \<noteq> None)"
proof -
  let ?s = "relaxed_exploration xp xo rules (setup_exploration_queue state xp xo rules)"
  note D = exploration_invD [OF exploration_inv_explore [of rules state xp xo]]
  from assms D(5) [of p] obtain i where
    i: "i < length rules" "reached_by (nodes ?s p) = int i" "fst (counters ?s ! i) = 0"
    by (auto simp: explore_def)
  from D(6) [OF i(1)] i(3) have "waiting rules None 0 ?s i = {}" by simp
  then have "\<forall>q \<in> set (precondition (rules ! i)). cost (nodes ?s q) \<noteq> None"
    by (auto simp: waiting_def popped_def)
  with i show ?thesis by (auto simp: explore_def)
qed

lemma explore_seed:
  "cost (explore state xp xo rules p) \<noteq> None \<Longrightarrow> reached_by (explore state xp xo rules p) = NO_OP
   \<Longrightarrow> p \<in> set (state_facts state)"
  using exploration_invD(7) [OF exploration_inv_explore [of rules state xp xo], of p]
  by (simp add: explore_def)

subsection \<open>The backward chaining on the table of an exploration\<close>

text \<open>
  The two facts about the proposition table that the backward chaining relies on, and the
  object as the constructor builds it: the unary operators are those of the task and the
  membership array has one entry per operator.
\<close>

definition table_ok :: "State \<Rightarrow> FFHeuristic \<Rightarrow> bool" where
  "table_ok state h \<longleftrightarrow>
     (\<forall>p. reached_by (propositions h p) \<noteq> NO_OP \<longrightarrow>
        (\<exists>i < length (unary_operators h). reached_by (propositions h p) = int i
           \<and> (\<forall>q \<in> set (precondition (unary_operators h ! i)). cost (propositions h q) \<noteq> None)))
     \<and> (\<forall>p. cost (propositions h p) \<noteq> None \<longrightarrow> reached_by (propositions h p) = NO_OP \<longrightarrow>
          p \<in> set (state_facts state))"

definition well_formed :: "FFHeuristic \<Rightarrow> bool" where
  "well_formed h \<longleftrightarrow>
     unary_operators h = build_unary_operators (ff_task h)
     \<and> length (relaxed_plan h) = length (get_operators (ff_task h))"

lemma build_unary_operators_operator_no:
  assumes "rule \<in> set (build_unary_operators task)"
  shows "operator_no rule = - 1
     \<or> (\<exists>i < length (get_operators task). operator_no rule = int i
          \<and> set (get_preconditions (get_operators task ! i)) \<subseteq> set (precondition rule))"
proof -
  from assms consider
      i op where "(i, op) \<in> set (enumerate 0 (get_operators task))"
        "rule \<in> set (build_unary_operators_of (int i) (get_cost op) op)"
    | ax where "rule \<in> set (build_unary_operators_of (- 1) 0 ax)"
    by (auto simp: build_unary_operators_def)
  then show ?thesis
  proof cases
    case 1
    from 1(1) have "i < length (get_operators task)" "op = get_operators task ! i"
      by (auto simp: in_set_enumerate_eq)
    with 1(2) show ?thesis by (auto simp: build_unary_operators_of_def)
  next
    case 2
    then show ?thesis by (auto simp: build_unary_operators_of_def)
  qed
qed

lemma is_applicable_state_facts:
  "is_applicable op state \<longleftrightarrow> set (get_preconditions op) \<subseteq> set (state_facts state)"
  by (auto simp: is_applicable_def state_facts_def list_all_iff in_set_enumerate_eq)

lemma mark_frameD:
  assumes "mark_frame state h h'"
  shows "ff_task h' = ff_task h" and "unary_operators h' = unary_operators h"
    and "length (relaxed_plan h') = length (relaxed_plan h)"
    and "\<And>q. cost (propositions h' q) = cost (propositions h q)"
    and "\<And>q. reached_by (propositions h' q) = reached_by (propositions h q)"
  using assms unfolding mark_frame_def by blast+

lemma table_ok_frame: "mark_frame state h h' \<Longrightarrow> table_ok state h \<Longrightarrow> table_ok state h'"
  unfolding table_ok_def by (simp only: mark_frameD)

lemma well_formed_frame: "mark_frame state h h' \<Longrightarrow> well_formed h \<Longrightarrow> well_formed h'"
  by (simp add: mark_frame_def well_formed_def)

lemma mark_preconditions_flag:
  "mark_preconditions fuel state ps b h = Some (Inr (h', b')) \<Longrightarrow> b' \<Longrightarrow>
   b \<and> (\<forall>p \<in> set ps. reached_by (propositions h p) = NO_OP)"
proof (induction ps arbitrary: b h)
  case Nil
  then show ?case by simp
next
  case (Cons p ps)
  from Cons.prems(1) obtain h1 where
    m: "mark_preferred_operators_and_relaxed_plan fuel state h p = Some (Inr h1)"
    and r: "mark_preconditions fuel state ps
              (if reached_by (propositions h1 p) \<noteq> NO_OP then False else b) h1 = Some (Inr (h', b'))"
    by (auto split: option.splits sum.splits)
  have f: "mark_frame state h h1" using m by (rule mark_frame_mark)
  then have same: "reached_by (propositions h1 q) = reached_by (propositions h q)" for q
    by (rule mark_frameD)
  from Cons.IH [OF r Cons.prems(2)] show ?case
    by (auto simp: same split: if_splits)
qed

lemma record_operator_safe:
  assumes wf: "well_formed h2"
    and rule: "unary_op \<in> set (unary_operators h2)"
    and pre: "is_preferred \<Longrightarrow> set (precondition unary_op) \<subseteq> set (state_facts state)"
  shows "record_operator state unary_op is_preferred h2 \<noteq> Inl e"
proof -
  from rule wf have "unary_op \<in> set (build_unary_operators (ff_task h2))"
    by (simp add: well_formed_def)
  from build_unary_operators_operator_no [OF this] show ?thesis
  proof
    assume "operator_no unary_op = - 1"
    then show ?thesis by (simp add: record_operator_def)
  next
    assume "\<exists>i < length (get_operators (ff_task h2)). operator_no unary_op = int i
          \<and> set (get_preconditions (get_operators (ff_task h2) ! i)) \<subseteq> set (precondition unary_op)"
    then obtain i where i: "i < length (get_operators (ff_task h2))" "operator_no unary_op = int i"
      "set (get_preconditions (get_operators (ff_task h2) ! i)) \<subseteq> set (precondition unary_op)"
      by blast
    have len: "i < length (relaxed_plan h2)" using wf i(1) by (simp add: well_formed_def)
    have "is_applicable (get_operators (ff_task h2) ! i) state" if is_preferred
      using pre [OF that] i(3) by (auto simp: is_applicable_state_facts)
    then show ?thesis
      using i len by (auto simp: record_operator_def)
  qed
qed

lemma mark_preconditions_safe_step:
  assumes "\<And>h goal_id. table_ok state h \<Longrightarrow> well_formed h
              \<Longrightarrow> mark_preferred_operators_and_relaxed_plan fuel state h goal_id \<noteq> Some (Inl e)"
  shows "table_ok state h \<Longrightarrow> well_formed h
         \<Longrightarrow> mark_preconditions fuel state ps b h \<noteq> Some (Inl e)"
proof (induction ps arbitrary: b h)
  case Nil
  then show ?case by simp
next
  case (Cons p ps)
  show ?case
  proof (cases "mark_preferred_operators_and_relaxed_plan fuel state h p")
    case None
    then show ?thesis by simp
  next
    case (Some r)
    show ?thesis
    proof (cases r)
      case (Inl e')
      with Some assms [OF Cons.prems, of p] show ?thesis by auto
    next
      case (Inr h1)
      with Some have f: "mark_frame state h h1" by (simp add: mark_frame_mark)
      from Cons.IH [OF table_ok_frame [OF f Cons.prems(1)] well_formed_frame [OF f Cons.prems(2)]]
        Some Inr show ?thesis by simp
    qed
  qed
qed

lemma mark_safe:
  "table_ok state h \<Longrightarrow> well_formed h
   \<Longrightarrow> mark_preferred_operators_and_relaxed_plan fuel state h goal_id \<noteq> Some (Inl e)"
proof (induction fuel arbitrary: h goal_id)
  case 0
  then show ?case by simp
next
  case (Suc fuel)
  let ?op_id = "reached_by (propositions h goal_id)"
  show ?case
  proof (cases "marked (propositions h goal_id) \<or> ?op_id = NO_OP")
    case True
    then show ?thesis unfolding mark_Suc by auto
  next
    case False
    then obtain i where i: "i < length (unary_operators h)" "?op_id = int i"
      and reached: "\<forall>q \<in> set (precondition (unary_operators h ! i)). cost (propositions h q) \<noteq> None"
      using Suc.prems(1) unfolding table_ok_def by blast
    let ?rule = "unary_operators h ! i"
    let ?h1 = "mark_goal goal_id h"
    have f1: "mark_frame state h ?h1" by (rule mark_frame_mark_goal)
    have ok1: "table_ok state ?h1" "well_formed ?h1"
      using f1 Suc.prems by (auto intro: table_ok_frame well_formed_frame)
    have pre: "mark_preconditions fuel state (precondition ?rule) True ?h1 \<noteq> Some (Inl e)"
      using Suc.IH ok1 by (rule mark_preconditions_safe_step)
    have rec: "record_operator state ?rule b h2 \<noteq> Inl e"
      if m: "mark_preconditions fuel state (precondition ?rule) True ?h1 = Some (Inr (h2, b))"
      for h2 b
    proof (rule record_operator_safe)
      have f2: "mark_frame state ?h1 h2" using m by (rule mark_frame_mark_preconditions)
      show "well_formed h2" using f2 ok1(2) by (rule well_formed_frame)
      have "unary_operators h2 = unary_operators h"
        using f1 f2 by (simp add: mark_frame_def)
      then show "?rule \<in> set (unary_operators h2)" using i(1) by simp
      show "set (precondition ?rule) \<subseteq> set (state_facts state)" if b
      proof
        fix q assume q: "q \<in> set (precondition ?rule)"
        from mark_preconditions_flag [OF m that] q
        have "reached_by (propositions ?h1 q) = NO_OP" by blast
        then have "reached_by (propositions h q) = NO_OP"
          by (simp add: mark_frameD(5) [OF f1])
        moreover have "cost (propositions h q) \<noteq> None" using reached q by blast
        ultimately show "q \<in> set (state_facts state)"
          using Suc.prems(1) unfolding table_ok_def by blast
      qed
    qed
    show ?thesis
      unfolding mark_Suc using False i pre rec
      by (auto split: option.splits sum.splits)
  qed
qed

lemma mark_goals_safe:
  "table_ok state h \<Longrightarrow> well_formed h \<Longrightarrow> mark_goals fuel state goals h \<noteq> Some (Inl e)"
proof (induction goals arbitrary: h)
  case Nil
  then show ?case by simp
next
  case (Cons g goals)
  show ?case
  proof (cases "mark_preferred_operators_and_relaxed_plan fuel state h g")
    case None
    then show ?thesis by simp
  next
    case (Some r)
    show ?thesis
    proof (cases r)
      case (Inl e')
      with Some mark_safe [OF Cons.prems, of fuel g e] show ?thesis by auto
    next
      case (Inr h1)
      with Some have f: "mark_frame state h h1" by (simp add: mark_frame_mark)
      from Cons.IH [OF table_ok_frame [OF f Cons.prems(1)] well_formed_frame [OF f Cons.prems(2)]]
        Some Inr show ?thesis by simp
    qed
  qed
qed

lemma sum_relaxed_plan_safe:
  "set ops \<subseteq> {..<length (get_operators (ff_task h))} \<Longrightarrow>
   sum_relaxed_plan ops (h_ff, adj_h_ff, h) \<noteq> Inl e"
proof (induction ops arbitrary: h_ff adj_h_ff h)
  case Nil
  then show ?case by simp
next
  case (Cons op_no ops)
  have t: "ff_task (snd (op_weights_at k h1)) = ff_task h1" for k h1
    by (simp add: op_weights_at_def split: option.splits)
  show ?case
    using Cons.prems
    by (auto simp: Let_def split_beta t intro!: Cons.IH)
qed

lemma table_ok_compute_add_and_ff: "table_ok state (snd (compute_add_and_ff h state))"
  unfolding table_ok_def snd_compute_add_and_ff
  using explore_reached_by [of state "[]" "{}" "unary_operators h"]
    explore_seed [of state "[]" "{}" "unary_operators h"]
  by simp

lemma well_formed_compute_add_and_ff:
  "well_formed h \<Longrightarrow> well_formed (snd (compute_add_and_ff h state))"
  by (simp add: well_formed_def snd_compute_add_and_ff)

lemma compute_heuristic_safe:
  assumes "well_formed h" "compute_heuristic fuel h ancestor_state = Some (Inl e)"
  shows "e = Overflow \<and> use_learned_weights h"
proof -
  note a = assms(2)
  let ?st = "convert_ancestor_state ancestor_state"
  let ?h1 = "snd (compute_add_and_ff h ?st)"
  have g: "goal_propositions ?h1 = goal_propositions h" by (simp add: snd_compute_add_and_ff)
  have ok: "table_ok ?st ?h1" "well_formed ?h1"
    using assms(1) by (simp_all add: table_ok_compute_add_and_ff well_formed_compute_add_and_ff)
  have m: "mark_goals fuel ?st (goal_propositions h) ?h1 \<noteq> Some (Inl e')" for e'
    using ok by (rule mark_goals_safe)
  from a m obtain h2 where
    h2: "mark_goals fuel ?st (goal_propositions h) ?h1 = Some (Inr h2)"
    by (cases "mark_goals fuel ?st (goal_propositions h) ?h1")
       (auto simp: compute_heuristic_def Let_def split_beta g split: if_splits sum.splits)
  have f: "mark_frame ?st ?h1 h2" using h2 by (rule mark_frame_mark_goals)
  then have "well_formed h2" using ok(2) by (rule well_formed_frame)
  then have "set [0..<length (relaxed_plan h2)] \<subseteq> {..<length (get_operators (ff_task h2))}"
    by (auto simp: well_formed_def)
  from sum_relaxed_plan_safe [OF this] obtain h_ff adj_h_ff h3 where
    s: "sum_relaxed_plan [0..<length (relaxed_plan h2)] (0, Finite 0 0, h2)
          = Inr (h_ff, adj_h_ff, h3)"
    by (cases "sum_relaxed_plan [0..<length (relaxed_plan h2)] (0, Finite 0 0, h2)") auto
  from f have "use_learned_weights h2 = use_learned_weights h"
    by (simp add: mark_frame_def snd_compute_add_and_ff)
  moreover have "sum_frame h2 h3" using s by (rule sum_relaxed_plan_all)
  ultimately have l: "use_learned_weights h3 = use_learned_weights h"
    by (simp add: sum_frame_def)
  have "double_to_int x = Inl e' \<Longrightarrow> e' = Overflow" for x e'
    by (cases x) (auto simp: Let_def split: if_splits)
  with a h2 s l show ?thesis
    by (auto simp: compute_heuristic_def Let_def split_beta g split: if_splits sum.splits)
qed

lemma compute_heuristic_returns:
  assumes "length (concat (map precondition (unary_operators h))) + 1 < fuel"
  shows "\<exists>r. compute_heuristic fuel h ancestor_state = Some r"
proof -
  let ?st = "convert_ancestor_state ancestor_state"
  let ?h1 = "snd (compute_add_and_ff h ?st)"
  have g: "goal_propositions ?h1 = goal_propositions h" "unary_operators ?h1 = unary_operators h"
    by (simp_all add: snd_compute_add_and_ff)
  have "\<exists>r. mark_goals fuel ?st (goal_propositions h) ?h1 = Some r"
    using assms by (intro mark_goals_returns) (simp add: g)
  then show ?thesis
    by (auto simp: compute_heuristic_def Let_def split_beta g split: sum.splits)
qed

lemma well_formed_fresh_heuristic: "well_formed (fresh_heuristic task learned table)"
  by (simp add: well_formed_def fresh_heuristic_def)

text \<open>What a call of \<^verbatim>\<open>compute_heuristic\<close> returned, with the preferred operators it left.\<close>

definition preferred_of ::
  "(error + int \<times> FFHeuristic) option \<Rightarrow> (error + int \<times> nat list) option" where
  "preferred_of r = map_option (map_sum id (\<lambda>(v, h). (v, preferred_operators h))) r"

lemma preferred_of_Inr:
  "preferred_of r = Some (Inr (v, ops)) \<Longrightarrow>
   \<exists>h'. r = Some (Inr (v, h')) \<and> preferred_operators h' = ops"
proof -
  assume a: "preferred_of r = Some (Inr (v, ops))"
  then obtain x where r: "r = Some x"
    "map_sum id (\<lambda>(v, h). (v, preferred_operators h)) x = Inr (v, ops)"
    by (cases r) (auto simp: preferred_of_def)
  then obtain y where "x = Inr y" "(\<lambda>(v, h). (v, preferred_operators h)) y = (v, ops)"
    by (cases x) auto
  with r show ?thesis by (cases y) auto
qed

subsection \<open>Preferred operators\<close>

text \<open>
  Claim C6. For a heuristic object as the constructor builds it, an evaluation never stops
  at the \<^verbatim>\<open>assert\<close> of applicability, and every operator it adds to the preferred operators
  is an operator of the task that is applicable in the evaluated state: an operator is
  marked preferred only when every precondition of its unary operator has no achiever, and
  such a precondition, being reached, is a fact of the state.
\<close>

theorem preferred_operators_applicable:
  "well_formed h \<Longrightarrow>
   compute_heuristic fuel h ancestor_state \<noteq> Some (Inl AssertionFailed)
   \<and> (compute_heuristic fuel h ancestor_state = Some (Inr (v, h')) \<longrightarrow>
        (\<forall>op_no \<in> set (preferred_operators h') - set (preferred_operators h).
           op_no < length (get_operators (ff_task h))
           \<and> is_applicable (get_operators (ff_task h) ! op_no)
               (convert_ancestor_state ancestor_state)))"
proof (intro conjI impI)
  assume "well_formed h"
  then show "compute_heuristic fuel h ancestor_state \<noteq> Some (Inl AssertionFailed)"
    using compute_heuristic_safe [of h fuel ancestor_state AssertionFailed] by auto
next
  let ?st = "convert_ancestor_state ancestor_state"
  assume "compute_heuristic fuel h ancestor_state = Some (Inr (v, h'))"
  then show "\<forall>op_no \<in> set (preferred_operators h') - set (preferred_operators h).
           op_no < length (get_operators (ff_task h))
           \<and> is_applicable (get_operators (ff_task h) ! op_no) ?st"
  proof (cases rule: compute_heuristic_cases)
    case dead_end
    then show ?thesis by (simp add: snd_compute_add_and_ff)
  next
    case (plan h2 h_ff adj_h_ff)
    have "mark_frame ?st (snd (compute_add_and_ff h ?st)) h2"
      using plan(2) by (rule mark_frame_mark_goals)
    then have "\<forall>op_no \<in> set (preferred_operators h2) - set (preferred_operators h).
           op_no < length (get_operators (ff_task h))
           \<and> is_applicable (get_operators (ff_task h) ! op_no) ?st"
      by (simp add: mark_frame_def snd_compute_add_and_ff)
    moreover have "preferred_operators h' = preferred_operators h2"
      using sum_relaxed_plan_all(1) [OF plan(3)] by (simp add: sum_frame_def)
    ultimately show ?thesis by simp
  qed
qed

text \<open>
  On the task with two operators, pick-up is the one preferred operator in the state where
  both variables are 0, and it is applicable there.
\<close>

theorem preferred_operators_applicable_witness:
  "well_formed (fresh_heuristic blocks_task False Map.empty)
   \<and> compute_heuristic 5 (fresh_heuristic blocks_task False Map.empty) [0, 0]
       \<noteq> Some (Inl AssertionFailed)
   \<and> preferred_of (compute_heuristic 5 (fresh_heuristic blocks_task False Map.empty) [0, 0])
       = Some (Inr (2, [0]))
   \<and> is_applicable (get_operators blocks_task ! 0) (convert_ancestor_state [0, 0])"
proof -
  let ?h = "fresh_heuristic blocks_task False Map.empty"
  have wf: "well_formed ?h" by (rule well_formed_fresh_heuristic)
  have p: "preferred_of (compute_heuristic 5 ?h [0, 0]) = Some (Inr (2, [0]))"
    by code_simp
  then obtain h' where run: "compute_heuristic 5 ?h [0, 0] = Some (Inr (2, h'))"
    and pref: "preferred_operators h' = [0]"
    using preferred_of_Inr by blast
  have "preferred_operators ?h = []" "ff_task ?h = blocks_task"
    by (simp_all add: fresh_heuristic_def)
  with preferred_operators_applicable [OF wf, of 5 "[0, 0]" 2 h'] run pref wf p
  show ?thesis by simp
qed

subsection \<open>The estimate in learned-weight mode\<close>

lemma compute_heuristic_learned:
  assumes learned: "use_learned_weights h"
    and alive: "fst (compute_add_and_ff h (convert_ancestor_state ancestor_state)) \<noteq> DEAD_END"
    and m: "mark_goals fuel (convert_ancestor_state ancestor_state) (goal_propositions h)
         (snd (compute_add_and_ff h (convert_ancestor_state ancestor_state))) = Some (Inr h2)"
    and s: "sum_relaxed_plan [0..<length (relaxed_plan h2)] (0, Finite 0 0, h2)
         = Inr (h_ff, adj_h_ff, h3)"
  shows "value_of (compute_heuristic fuel h ancestor_state)
     = Some (double_to_int (dceil (foldl dadd (Finite 0 0)
         (map (family_weight h) (relaxed_plan_after_marking fuel h ancestor_state)))))"
proof -
  let ?st = "convert_ancestor_state ancestor_state"
  let ?h1 = "snd (compute_add_and_ff h ?st)"
  have g: "goal_propositions ?h1 = goal_propositions h"
    by (simp add: snd_compute_add_and_ff)
  have f: "mark_frame ?st ?h1 h2"
    using m by (rule mark_frame_mark_goals)
  then have "op_weights h2 = op_weights h" "ff_task h2 = ff_task h"
    "use_learned_weights h2 = use_learned_weights h"
    by (simp_all add: mark_frame_def snd_compute_add_and_ff)
  then have same: "use_learned_weights h2" "family_weight h2 = family_weight h"
    using learned by (simp_all add: family_weight_def [abs_def])
  have ops: "relaxed_plan_after_marking fuel h ancestor_state = relaxed_plan_ops h2"
    using m by (simp add: relaxed_plan_after_marking_def Let_def snd_compute_add_and_ff)
  have adj: "adj_h_ff = foldl dadd (Finite 0 0) (map (family_weight h) (relaxed_plan_ops h2))"
    using sum_relaxed_plan_all(3) [OF s] same by simp
  have "sum_frame h2 h3" using s by (rule sum_relaxed_plan_all)
  then have l: "use_learned_weights h3" using same(1) by (simp add: sum_frame_def)
  have "compute_heuristic fuel h ancestor_state
      = (case double_to_int (dceil adj_h_ff) of Inl e \<Rightarrow> Some (Inl e) | Inr v \<Rightarrow> Some (Inr (v, h3)))"
    using alive m s l by (simp add: compute_heuristic_def Let_def split_beta g)
  then have "value_of (compute_heuristic fuel h ancestor_state) = Some (double_to_int (dceil adj_h_ff))"
    by (cases "double_to_int (dceil adj_h_ff)") (simp_all add: value_of_def)
  then show ?thesis by (simp add: adj ops)
qed

text \<open>
  Claim C3, as the source has it. In learned-weight mode, for a state that is not a dead
  end, the value returned is the \<^verbatim>\<open>int\<close> that the ceiling of a \<^verbatim>\<open>double\<close> converts to: of the
  \<^verbatim>\<open>double\<close> that results from adding to 0.0, in the order of the operator numbers and with
  the rounding of \<^verbatim>\<open>double\<close> addition at each step, the weight of the family (the name up to
  the first space; 0.0 for a family without an entry) of every operator of the relaxed plan,
  each once. No operator cost occurs in it. This is the value of every evaluation that
  returns one, and an evaluation of a heuristic object as the constructor builds it, with
  enough depth of recursion, returns this value or, where the conversion is undefined,
  stops at the conversion.
\<close>

theorem learned_weights_replace_costs:
  "use_learned_weights h \<Longrightarrow>
   fst (compute_add_and_ff h (convert_ancestor_state ancestor_state)) \<noteq> DEAD_END \<Longrightarrow>
   (compute_heuristic fuel h ancestor_state = Some (Inr (v, h')) \<longrightarrow>
      double_to_int (dceil (foldl dadd (Finite 0 0)
        (map (family_weight h) (relaxed_plan_after_marking fuel h ancestor_state)))) = Inr v)
   \<and> (well_formed h \<longrightarrow> length (concat (map precondition (unary_operators h))) + 1 < fuel \<longrightarrow>
      value_of (compute_heuristic fuel h ancestor_state)
        = Some (double_to_int (dceil (foldl dadd (Finite 0 0)
            (map (family_weight h) (relaxed_plan_after_marking fuel h ancestor_state))))))"
proof (intro conjI impI)
  assume learned: "use_learned_weights h"
    and alive: "fst (compute_add_and_ff h (convert_ancestor_state ancestor_state)) \<noteq> DEAD_END"
    and run: "compute_heuristic fuel h ancestor_state = Some (Inr (v, h'))"
  from run show "double_to_int (dceil (foldl dadd (Finite 0 0)
        (map (family_weight h) (relaxed_plan_after_marking fuel h ancestor_state)))) = Inr v"
  proof (cases rule: compute_heuristic_cases)
    case dead_end
    with alive show ?thesis by simp
  next
    case (plan h2 h_ff adj_h_ff)
    from compute_heuristic_learned [OF learned alive plan(2,3)] run show ?thesis
      by (simp add: value_of_def)
  qed
next
  let ?st = "convert_ancestor_state ancestor_state"
  let ?h1 = "snd (compute_add_and_ff h ?st)"
  assume learned: "use_learned_weights h"
    and alive: "fst (compute_add_and_ff h ?st) \<noteq> DEAD_END"
    and wf: "well_formed h"
    and fuel: "length (concat (map precondition (unary_operators h))) + 1 < fuel"
  have g: "goal_propositions ?h1 = goal_propositions h" "unary_operators ?h1 = unary_operators h"
    by (simp_all add: snd_compute_add_and_ff)
  have ok: "table_ok ?st ?h1" "well_formed ?h1"
    using wf by (simp_all add: table_ok_compute_add_and_ff well_formed_compute_add_and_ff)
  have "\<exists>r. mark_goals fuel ?st (goal_propositions h) ?h1 = Some r"
    using fuel by (intro mark_goals_returns) (simp add: g)
  then obtain r where r: "mark_goals fuel ?st (goal_propositions h) ?h1 = Some r" by blast
  have "r \<noteq> Inl e" for e
    using mark_goals_safe [OF ok, of fuel "goal_propositions h" e] r by simp
  then obtain h2 where m: "mark_goals fuel ?st (goal_propositions h) ?h1 = Some (Inr h2)"
    using r by (cases r) auto
  have "mark_frame ?st ?h1 h2" using m by (rule mark_frame_mark_goals)
  then have "well_formed h2" using ok(2) by (rule well_formed_frame)
  then have "set [0..<length (relaxed_plan h2)] \<subseteq> {..<length (get_operators (ff_task h2))}"
    by (auto simp: well_formed_def)
  from sum_relaxed_plan_safe [OF this] obtain h_ff adj_h_ff h3 where
    s: "sum_relaxed_plan [0..<length (relaxed_plan h2)] (0, Finite 0 0, h2)
          = Inr (h_ff, adj_h_ff, h3)"
    by (cases "sum_relaxed_plan [0..<length (relaxed_plan h2)] (0, Finite 0 0, h2)") auto
  from learned alive m s show "value_of (compute_heuristic fuel h ancestor_state)
        = Some (double_to_int (dceil (foldl dadd (Finite 0 0)
            (map (family_weight h) (relaxed_plan_after_marking fuel h ancestor_state)))))"
    by (rule compute_heuristic_learned)
qed

text \<open>
  The families pick-up and put-down with the weights 1.5 and 2.25, which are 3 times 2 to
  the -1 and 9 times 2 to the -2, on operators whose names have two spaces: the relaxed
  plan holds both operators, the sum is 3.75, which is 15 times 2 to the -2, and the
  estimate is 4.
\<close>

theorem learned_weights_replace_costs_witness:
  "use_learned_weights (fresh_heuristic gripper_task True
      [''pick-up'' \<mapsto> Finite 3 (- 1), ''put-down'' \<mapsto> Finite 9 (- 2)])
   \<and> fst (compute_add_and_ff (fresh_heuristic gripper_task True
        [''pick-up'' \<mapsto> Finite 3 (- 1), ''put-down'' \<mapsto> Finite 9 (- 2)])
       (convert_ancestor_state [0, 0])) \<noteq> DEAD_END
   \<and> well_formed (fresh_heuristic gripper_task True
        [''pick-up'' \<mapsto> Finite 3 (- 1), ''put-down'' \<mapsto> Finite 9 (- 2)])
   \<and> length (concat (map precondition (unary_operators (fresh_heuristic gripper_task True
        [''pick-up'' \<mapsto> Finite 3 (- 1), ''put-down'' \<mapsto> Finite 9 (- 2)])))) + 1 < 5
   \<and> is_double (Finite 3 (- 1)) \<and> is_double (Finite 9 (- 2))
   \<and> map (op_type_of \<circ> get_name) (get_operators gripper_task) = [''pick-up'', ''put-down'']
   \<and> relaxed_plan_after_marking 5 (fresh_heuristic gripper_task True
        [''pick-up'' \<mapsto> Finite 3 (- 1), ''put-down'' \<mapsto> Finite 9 (- 2)]) [0, 0] = [0, 1]
   \<and> foldl dadd (Finite 0 0) (map (family_weight (fresh_heuristic gripper_task True
        [''pick-up'' \<mapsto> Finite 3 (- 1), ''put-down'' \<mapsto> Finite 9 (- 2)])) [0, 1])
       = Finite 15 (- 2)
   \<and> (\<exists>h'. compute_heuristic 5 (fresh_heuristic gripper_task True
        [''pick-up'' \<mapsto> Finite 3 (- 1), ''put-down'' \<mapsto> Finite 9 (- 2)]) [0, 0]
       = Some (Inr (4, h')))
   \<and> double_to_int (dceil (foldl dadd (Finite 0 0)
        (map (family_weight (fresh_heuristic gripper_task True
            [''pick-up'' \<mapsto> Finite 3 (- 1), ''put-down'' \<mapsto> Finite 9 (- 2)]))
          (relaxed_plan_after_marking 5 (fresh_heuristic gripper_task True
            [''pick-up'' \<mapsto> Finite 3 (- 1), ''put-down'' \<mapsto> Finite 9 (- 2)]) [0, 0]))))
       = Inr 4
   \<and> value_of (compute_heuristic 5 (fresh_heuristic gripper_task True
        [''pick-up'' \<mapsto> Finite 3 (- 1), ''put-down'' \<mapsto> Finite 9 (- 2)]) [0, 0])
       = Some (double_to_int (dceil (foldl dadd (Finite 0 0)
           (map (family_weight (fresh_heuristic gripper_task True
               [''pick-up'' \<mapsto> Finite 3 (- 1), ''put-down'' \<mapsto> Finite 9 (- 2)]))
             (relaxed_plan_after_marking 5 (fresh_heuristic gripper_task True
               [''pick-up'' \<mapsto> Finite 3 (- 1), ''put-down'' \<mapsto> Finite 9 (- 2)]) [0, 0])))))"
proof -
  let ?h = "fresh_heuristic gripper_task True
      [''pick-up'' \<mapsto> Finite 3 (- 1), ''put-down'' \<mapsto> Finite 9 (- 2)]"
  have learned: "use_learned_weights ?h" by (simp add: fresh_heuristic_def)
  have alive: "fst (compute_add_and_ff ?h (convert_ancestor_state [0, 0])) \<noteq> DEAD_END"
    by code_simp
  have wf: "well_formed ?h" by (rule well_formed_fresh_heuristic)
  have fuel: "length (concat (map precondition (unary_operators ?h))) + 1 < 5"
    by code_simp
  have doubles: "is_double (Finite 3 (- 1)) \<and> is_double (Finite 9 (- 2))"
    by code_simp
  have names: "map (op_type_of \<circ> get_name) (get_operators gripper_task) = [''pick-up'', ''put-down'']"
    by code_simp
  have plan: "relaxed_plan_after_marking 5 ?h [0, 0] = [0, 1]"
    by code_simp
  have total: "foldl dadd (Finite 0 0) (map (family_weight ?h) [0, 1]) = Finite 15 (- 2)"
    by code_simp
  have v: "value_of (compute_heuristic 5 ?h [0, 0]) = Some (Inr 4)"
    by code_simp
  then obtain h' where run: "compute_heuristic 5 ?h [0, 0] = Some (Inr (4, h'))"
    using value_of_Inr by blast
  note inst = learned_weights_replace_costs [OF learned alive, of 5 4 h']
  from inst run have est: "double_to_int (dceil (foldl dadd (Finite 0 0)
        (map (family_weight ?h) (relaxed_plan_after_marking 5 ?h [0, 0])))) = Inr 4"
    by blast
  from inst wf fuel have ret: "value_of (compute_heuristic 5 ?h [0, 0])
       = Some (double_to_int (dceil (foldl dadd (Finite 0 0)
           (map (family_weight ?h) (relaxed_plan_after_marking 5 ?h [0, 0])))))"
    by blast
  show ?thesis
    using learned alive wf fuel doubles names plan total run est ret by blast
qed

text \<open>
  The claim as it was stated has the ceiling of the sum of the weights. With the weights
  1.0 for pick-up and 2 to the -60 for put-down, which are doubles, the relaxed plan holds
  both operators once, the sum of the two weights is above 1 and its ceiling is 2; the
  \<^verbatim>\<open>double\<close> sum 1.0 + 2 to the -60 is 1.0, and the evaluation returns 1.
\<close>

theorem learned_weights_sum_counterexample:
  "FFHeuristic_init blocks_task True [''pick-up'', ''put-down''] [Finite 1 0, Finite 1 (- 60)]
     = Inr (fresh_heuristic blocks_task True
         [''pick-up'' \<mapsto> Finite 1 0, ''put-down'' \<mapsto> Finite 1 (- 60)])
   \<and> is_double (Finite 1 0) \<and> is_double (Finite 1 (- 60))
   \<and> fst (compute_add_and_ff (fresh_heuristic blocks_task True
        [''pick-up'' \<mapsto> Finite 1 0, ''put-down'' \<mapsto> Finite 1 (- 60)])
       (convert_ancestor_state [0, 0])) \<noteq> DEAD_END
   \<and> relaxed_plan_after_marking 5 (fresh_heuristic blocks_task True
        [''pick-up'' \<mapsto> Finite 1 0, ''put-down'' \<mapsto> Finite 1 (- 60)]) [0, 0] = [0, 1]
   \<and> map (family_weight (fresh_heuristic blocks_task True
        [''pick-up'' \<mapsto> Finite 1 0, ''put-down'' \<mapsto> Finite 1 (- 60)])) [0, 1]
       = [Finite 1 0, Finite 1 (- 60)]
   \<and> \<lceil>dyadic 1 0 + dyadic 1 (- 60)\<rceil> = (2 :: int)
   \<and> value_of (compute_heuristic 5 (fresh_heuristic blocks_task True
        [''pick-up'' \<mapsto> Finite 1 0, ''put-down'' \<mapsto> Finite 1 (- 60)]) [0, 0])
       = Some (Inr 1)"
proof -
  have init: "FFHeuristic_init blocks_task True [''pick-up'', ''put-down'']
       [Finite 1 0, Finite 1 (- 60)]
     = Inr (fresh_heuristic blocks_task True
         [''pick-up'' \<mapsto> Finite 1 0, ''put-down'' \<mapsto> Finite 1 (- 60)])"
    by (simp add: FFHeuristic_init_def fresh_heuristic_def)
  have doubles: "is_double (Finite 1 0) \<and> is_double (Finite 1 (- 60))"
    by code_simp
  have alive: "fst (compute_add_and_ff (fresh_heuristic blocks_task True
        [''pick-up'' \<mapsto> Finite 1 0, ''put-down'' \<mapsto> Finite 1 (- 60)])
       (convert_ancestor_state [0, 0])) \<noteq> DEAD_END"
    by code_simp
  have plan: "relaxed_plan_after_marking 5 (fresh_heuristic blocks_task True
        [''pick-up'' \<mapsto> Finite 1 0, ''put-down'' \<mapsto> Finite 1 (- 60)]) [0, 0] = [0, 1]"
    by code_simp
  have weights: "map (family_weight (fresh_heuristic blocks_task True
        [''pick-up'' \<mapsto> Finite 1 0, ''put-down'' \<mapsto> Finite 1 (- 60)])) [0, 1]
       = [Finite 1 0, Finite 1 (- 60)]"
    by code_simp
  have ceil: "\<lceil>dyadic 1 0 + dyadic 1 (- 60)\<rceil> = (2 :: int)"
    by (simp add: dyadic_def ceiling_eq_iff)
  have run: "value_of (compute_heuristic 5 (fresh_heuristic blocks_task True
        [''pick-up'' \<mapsto> Finite 1 0, ''put-down'' \<mapsto> Finite 1 (- 60)]) [0, 0])
       = Some (Inr 1)"
    by code_simp
  show ?thesis using init doubles alive plan weights ceil run by blast
qed

subsection \<open>Dead ends\<close>

text \<open>
  The first half of claim C5: if some goal fact is unreachable in the exploration from the
  state with no exclusions, the evaluation returns \<^verbatim>\<open>DEAD_END\<close>.
\<close>

lemma dead_end_for_unreachable_goal:
  assumes "\<exists>goal_id \<in> set (goal_propositions h).
       cost (explore (convert_ancestor_state ancestor_state) [] {} (unary_operators h) goal_id)
         = None"
  shows "value_of (compute_heuristic fuel h ancestor_state) = Some (Inr DEAD_END)"
proof -
  from assms have "fst (compute_add_and_ff h (convert_ancestor_state ancestor_state)) = DEAD_END"
    by (simp add: fst_compute_add_and_ff_dead_end)
  then show ?thesis
    by (simp add: compute_heuristic_def Let_def split_beta value_of_def)
qed

text \<open>
  Claim C5. For every evaluated state the heuristic returns \<^verbatim>\<open>DEAD_END\<close> if and only if
  some goal fact is unreachable in the exploration with no exclusions, and a value other
  than \<^verbatim>\<open>DEAD_END\<close> when all goal facts are reachable. The source breaks the second half in
  learned-weight mode: it returns the ceiling of the weight sum whatever that is, and with
  the weight -1.0 for pick-up and 0.0 for put-down, on the task with two operators, every
  goal fact is reachable and the value returned is the ceiling of -1.0 + 0.0, which is
  \<^verbatim>\<open>DEAD_END\<close>.
\<close>

theorem dead_end_returned_for_reachable_goal:
  "FFHeuristic_init blocks_task True [''pick-up'', ''put-down''] [Finite (- 1) 0, Finite 0 0]
     = Inr (fresh_heuristic blocks_task True [''pick-up'' \<mapsto> Finite (- 1) 0, ''put-down'' \<mapsto> Finite 0 0])
   \<and> list_all (\<lambda>goal_id. cost (explore (convert_ancestor_state [0, 0]) [] {}
        (unary_operators (fresh_heuristic blocks_task True [''pick-up'' \<mapsto> Finite (- 1) 0, ''put-down'' \<mapsto> Finite 0 0]))
        goal_id) \<noteq> None)
      (goal_propositions (fresh_heuristic blocks_task True [''pick-up'' \<mapsto> Finite (- 1) 0, ''put-down'' \<mapsto> Finite 0 0]))
   \<and> value_of (compute_heuristic 5
        (fresh_heuristic blocks_task True [''pick-up'' \<mapsto> Finite (- 1) 0, ''put-down'' \<mapsto> Finite 0 0]) [0, 0])
      = Some (Inr DEAD_END)"
proof -
  have init: "FFHeuristic_init blocks_task True [''pick-up'', ''put-down''] [Finite (- 1) 0, Finite 0 0]
     = Inr (fresh_heuristic blocks_task True [''pick-up'' \<mapsto> Finite (- 1) 0, ''put-down'' \<mapsto> Finite 0 0])"
    by (simp add: FFHeuristic_init_def fresh_heuristic_def)
  have run: "list_all (\<lambda>goal_id. cost (explore (convert_ancestor_state [0, 0]) [] {}
        (unary_operators (fresh_heuristic blocks_task True [''pick-up'' \<mapsto> Finite (- 1) 0, ''put-down'' \<mapsto> Finite 0 0]))
        goal_id) \<noteq> None)
      (goal_propositions (fresh_heuristic blocks_task True [''pick-up'' \<mapsto> Finite (- 1) 0, ''put-down'' \<mapsto> Finite 0 0]))
   \<and> value_of (compute_heuristic 5
        (fresh_heuristic blocks_task True [''pick-up'' \<mapsto> Finite (- 1) 0, ''put-down'' \<mapsto> Finite 0 0]) [0, 0])
      = Some (Inr DEAD_END)"
    by code_simp
  show ?thesis using init run by blast
qed

end
